theory Spec2Isabelle
  imports Main
begin

section \<open>Strings\<close>

text \<open>
  JavaScript strings are modelled as \<^typ>\<open>string\<close>, a list of characters with code
  units below 256. In that range the class \<open>\s\<close> of a regular expression and the
  characters removed by \<open>String.prototype.trim\<close> are the same seven characters, and
  the line terminators seen by \<open>^\<close>, \<open>$\<close> and \<open>.\<close> are line feed and carriage
  return. The URL normalizers are the exception: what they do depends on code units
  above that range, and they are modelled over lists of 16-bit code units (see there).
\<close>

definition isSpace :: "char \<Rightarrow> bool" where
  "isSpace c = (c = CHR 0x09 \<or> c = CHR 0x0A \<or> c = CHR 0x0B \<or> c = CHR 0x0C
     \<or> c = CHR 0x0D \<or> c = CHR 0x20 \<or> c = CHR 0xA0)"

definition isLineTerminator :: "char \<Rightarrow> bool" where
  "isLineTerminator c = (c = CHR 0x0A \<or> c = CHR 0x0D)"

definition isDigit :: "char \<Rightarrow> bool" where
  "isDigit c = (48 \<le> (of_char c :: nat) \<and> (of_char c :: nat) \<le> 57)"

definition trim :: "string \<Rightarrow> string" where
  "trim s = rev (dropWhile isSpace (rev (dropWhile isSpace s)))"

definition startsWith :: "'a list \<Rightarrow> 'a list \<Rightarrow> bool" where
  \<comment> \<open>\<open>s.startsWith(p)\<close>\<close>
  "startsWith p s = (take (length p) s = p)"

fun includes_str :: "'a list \<Rightarrow> 'a list \<Rightarrow> bool" where
  \<comment> \<open>\<open>s.includes(p)\<close>\<close>
  "includes_str p [] = (p = [])"
| "includes_str p (c # cs) = (startsWith p (c # cs) \<or> includes_str p cs)"

definition asciiLower :: "char \<Rightarrow> char" where
  \<comment> \<open>the letters a regular expression with flag \<open>i\<close> identifies, folded to lower case\<close>
  "asciiLower c = (let n = (of_char c :: nat) in if 65 \<le> n \<and> n \<le> 90 then char_of (n + 32) else c)"

definition startsWithCI :: "string \<Rightarrow> string \<Rightarrow> bool" where
  \<comment> \<open>a literal pattern \<open>p\<close> (given in lower case) matched at the start of \<open>s\<close> under flag \<open>i\<close>\<close>
  "startsWithCI p s = startsWith p (map asciiLower s)"

section \<open>URL normalization\<close>

text \<open>
  The text given to the URL normalizers is typed by the user and can be any JavaScript
  string, and \<open>encodeURIComponent\<close> reads its argument as UTF-16: it throws on a surrogate
  code unit that has no partner. The normalizers are therefore modelled over strings as
  JavaScript has them, lists of 16-bit code units. A code unit is a natural number
  below 65536; \<open>js\<close> gives the code units of a string of the 8-bit range, and \<open>unjs\<close>
  the string of code units below 256. An exception is a value: \<open>Inl URIError\<close> is the
  \<open>URIError\<close> thrown, \<open>Inr r\<close> the string returned.
\<close>

type_synonym ustring = "nat list"

definition js :: "string \<Rightarrow> ustring" where
  "js s = map of_char s"

definition unjs :: "ustring \<Rightarrow> string" where
  \<comment> \<open>back from code units below 256\<close>
  "unjs u = map char_of u"

definition isWhiteSpace :: "nat \<Rightarrow> bool" where
  \<comment> \<open>the code units \<open>String.prototype.trim\<close> removes: white space and line terminators\<close>
  "isWhiteSpace c = (c \<in> set [0x09, 0x0A, 0x0B, 0x0C, 0x0D, 0x20, 0xA0, 0x1680, 0x2028, 0x2029,
                              0x202F, 0x205F, 0x3000, 0xFEFF]
                     \<or> (0x2000 \<le> c \<and> c \<le> 0x200A))"

definition trim16 :: "ustring \<Rightarrow> ustring" where
  "trim16 s = rev (dropWhile isWhiteSpace (rev (dropWhile isWhiteSpace s)))"

definition lower16 :: "nat \<Rightarrow> nat" where
  \<comment> \<open>the letters a regular expression with flag \<open>i\<close> identifies, folded to lower case\<close>
  "lower16 c = (if 65 \<le> c \<and> c \<le> 90 then c + 32 else c)"

definition matchesHttpScheme :: "ustring \<Rightarrow> bool" where
  \<comment> \<open>\<open>url.match(/^https?:\/\//i)\<close>\<close>
  "matchesHttpScheme url = (startsWith (js ''http://'') (map lower16 url)
                            \<or> startsWith (js ''https://'') (map lower16 url))"

datatype error = URIError

definition hexDigit :: "nat \<Rightarrow> nat" where
  \<comment> \<open>\<open>0\<close> to \<open>9\<close>, \<open>A\<close> to \<open>F\<close>\<close>
  "hexDigit n = (if n < 10 then 48 + n else 55 + n)"

definition percentByte :: "nat \<Rightarrow> ustring" where
  \<comment> \<open>\<open>%XX\<close>\<close>
  "percentByte b = [37, hexDigit (b div 16), hexDigit (b mod 16)]"

definition uriUnreserved :: "nat \<Rightarrow> bool" where
  \<comment> \<open>the characters \<open>encodeURIComponent\<close> leaves alone: \<open>A-Z a-z 0-9 - _ . ! ~ * ' ( )\<close>\<close>
  "uriUnreserved c = ((65 \<le> c \<and> c \<le> 90) \<or> (97 \<le> c \<and> c \<le> 122) \<or> (48 \<le> c \<and> c \<le> 57)
     \<or> c \<in> set [0x2D, 0x5F, 0x2E, 0x21, 0x7E, 0x2A, 0x27, 0x28, 0x29])"

definition isHighSurrogate :: "nat \<Rightarrow> bool" where
  "isHighSurrogate c = (0xD800 \<le> c \<and> c \<le> 0xDBFF)"

definition isLowSurrogate :: "nat \<Rightarrow> bool" where
  "isLowSurrogate c = (0xDC00 \<le> c \<and> c \<le> 0xDFFF)"

definition utf8 :: "nat \<Rightarrow> nat list" where
  \<comment> \<open>the UTF-8 bytes of a code point\<close>
  "utf8 cp =
     (if cp < 0x80 then [cp]
      else if cp < 0x800 then [0xC0 + cp div 0x40, 0x80 + cp mod 0x40]
      else if cp < 0x10000 then [0xE0 + cp div 0x1000, 0x80 + cp div 0x40 mod 0x40, 0x80 + cp mod 0x40]
      else [0xF0 + cp div 0x40000, 0x80 + cp div 0x1000 mod 0x40, 0x80 + cp div 0x40 mod 0x40,
            0x80 + cp mod 0x40])"

definition percentEncoded :: "nat \<Rightarrow> ustring" where
  "percentEncoded cp = concat (map percentByte (utf8 cp))"

definition followedBy :: "ustring \<Rightarrow> error + ustring \<Rightarrow> error + ustring" where
  \<comment> \<open>the text encoded so far, and the outcome of encoding the rest\<close>
  "followedBy out rest = (case rest of Inl e \<Rightarrow> Inl e | Inr r \<Rightarrow> Inr (out @ r))"

fun encodeURIComponent :: "ustring \<Rightarrow> error + ustring" where
  \<comment> \<open>\<open>Inl URIError\<close> is the exception thrown on a surrogate without its partner\<close>
  "encodeURIComponent [] = Inr []"
| "encodeURIComponent (c # cs) =
     (if uriUnreserved c then followedBy [c] (encodeURIComponent cs)
      else if isLowSurrogate c then Inl URIError
      else if isHighSurrogate c then
        (case cs of
           [] \<Rightarrow> Inl URIError
         | d # ds \<Rightarrow>
             if isLowSurrogate d
             then followedBy (percentEncoded (0x10000 + (c - 0xD800) * 0x400 + (d - 0xDC00)))
                             (encodeURIComponent ds)
             else Inl URIError)
      else followedBy (percentEncoded c) (encodeURIComponent cs))"

definition normalizeUrl :: "ustring \<Rightarrow> error + ustring" where
  \<comment> \<open>the bun process\<close>
  "normalizeUrl input = (let url = trim16 input in
     if url = [] then Inr []
     else if startsWith (js ''mdbrowse://'') url then Inr url
     else if matchesHttpScheme url then Inr url
     else if includes_str (js ''.'') url \<and> \<not> includes_str (js '' '') url then Inr (js ''https://'' @ url)
     else followedBy (js ''https://duckduckgo.com/?q='') (encodeURIComponent url))"

definition normalizeUrl_shim :: "ustring \<Rightarrow> ustring" where
  \<comment> \<open>\<open>normalizeUrl\<close> of the toolbar view (\<open>lib/rpc.ts\<close>)\<close>
  "normalizeUrl_shim input = (let url = trim16 input in
     if url = [] then []
     else if startsWith (js ''mdbrowse://'') url then url
     else if startsWith (js ''http://'') url \<or> startsWith (js ''https://'') url then url
     else if includes_str (js ''.'') url \<and> \<not> includes_str (js '' '') url then js ''https://'' @ url
     else js ''https://'' @ url)"

fun hasLoneSurrogate :: "ustring \<Rightarrow> bool" where
  \<comment> \<open>a surrogate code unit without its partner: a low one that follows no high one, or a
      high one that no low one follows (\<open>!s.isWellFormed()\<close>)\<close>
  "hasLoneSurrogate [] = False"
| "hasLoneSurrogate (c # cs) =
     (if isLowSurrogate c then True
      else if isHighSurrogate c then
        (case cs of [] \<Rightarrow> True | d # ds \<Rightarrow> \<not> isLowSurrogate d \<or> hasLoneSurrogate ds)
      else hasLoneSurrogate cs)"

definition freeText :: "ustring \<Rightarrow> bool" where
  \<comment> \<open>a trimmed input that is none of: empty, an \<open>mdbrowse:\<close> address, an address with an
      http scheme, a dotted name without a space\<close>
  "freeText url = (url \<noteq> [] \<and> \<not> startsWith (js ''mdbrowse://'') url \<and> \<not> matchesHttpScheme url
     \<and> \<not> (includes_str (js ''.'') url \<and> \<not> includes_str (js '' '') url))"

section \<open>Regular-expression replacement\<close>

text \<open>
  \<open>s.replace(re, f)\<close> with a global regular expression: the matcher \<open>m\<close> is the
  expression tried at one position. It is given the character before the position
  (\<open>None\<close> at the start of the string; \<open>^\<close> under flag \<open>m\<close> looks at it) and the rest
  of the string from the position on, and answers with the length of the match and the
  text that replaces it. After a match the search goes on behind it; after an empty match
  it moves on by one character, which is copied.
\<close>

fun replaceAll :: "(char option \<Rightarrow> string \<Rightarrow> (nat \<times> string) option) \<Rightarrow> char option \<Rightarrow> string \<Rightarrow> string" where
  "replaceAll m prev [] = (case m prev [] of None \<Rightarrow> [] | Some (n, out) \<Rightarrow> out)"
| "replaceAll m prev (c # cs) =
     (case m prev (c # cs) of
        None \<Rightarrow> c # replaceAll m (Some c) cs
      | Some (n, out) \<Rightarrow>
          if n = 0 then out @ c # replaceAll m (Some c) cs
          else out @ replaceAll m (Some (last (take n (c # cs)))) (drop (n - 1) cs))"

definition replace_g :: "(char option \<Rightarrow> string \<Rightarrow> (nat \<times> string) option) \<Rightarrow> string \<Rightarrow> string" where
  "replace_g m s = replaceAll m None s"

section \<open>Output Normalizer\<close>

function collapseSpaces :: "string \<Rightarrow> string" where
  \<comment> \<open>\<open>value.replace(/\s+/g, " ")\<close>\<close>
  "collapseSpaces [] = []"
| "collapseSpaces (c # cs) =
     (if isSpace c then CHR '' '' # collapseSpaces (dropWhile isSpace cs)
      else c # collapseSpaces cs)"
  by pat_completeness auto
termination
  by (relation "measure length") (auto simp: length_dropWhile_le le_imp_less_Suc)

definition normalizeWhitespace :: "string \<Rightarrow> string" where
  "normalizeWhitespace v = trim (collapseSpaces v)"

definition matchLink :: "(string \<Rightarrow> string \<Rightarrow> string) \<Rightarrow> char option \<Rightarrow> string \<Rightarrow> (nat \<times> string) option" where
  \<comment> \<open>\<open>/\[([^\]]*)\]\(([^)]+)\)/\<close> at one position; \<open>f text url\<close> is the replacement\<close>
  "matchLink f prev s =
     (case s of
        [] \<Rightarrow> None
      | c # cs \<Rightarrow>
          if c \<noteq> CHR ''['' then None
          else
            let text = takeWhile (\<lambda>x. x \<noteq> CHR '']'') cs;
                r1 = dropWhile (\<lambda>x. x \<noteq> CHR '']'') cs
            in (case r1 of
                  a # b # r2 \<Rightarrow>
                    if b \<noteq> CHR ''('' then None
                    else
                      let url = takeWhile (\<lambda>x. x \<noteq> CHR '')'') r2;
                          r3 = dropWhile (\<lambda>x. x \<noteq> CHR '')'') r2
                      in if url = [] \<or> r3 = [] then None
                         else Some (length text + length url + 4, f text url)
                | _ \<Rightarrow> None))"

definition linkReplacement :: "string \<Rightarrow> string \<Rightarrow> string" where
  \<comment> \<open>the callback of \<open>src/shared/turndown.ts\<close>\<close>
  "linkReplacement text url =
     (let cleaned = normalizeWhitespace text;
          normalizedUrl = (if startsWith ''//'' url then ''https:'' @ url else url);
          label = (if cleaned \<noteq> [] then cleaned else normalizedUrl)
      in if label \<noteq> [] then ''['' @ label @ '']('' @ normalizedUrl @ '')'' else [])"

definition linkReplacement_bun :: "string \<Rightarrow> string \<Rightarrow> string" where
  \<comment> \<open>the callback of the bun process and of the toolbar view\<close>
  "linkReplacement_bun text url =
     (let cleaned = trim (collapseSpaces text)
      in if cleaned = [] then [] else ''['' @ cleaned @ '']('' @ url @ '')'')"

definition matchDataLink :: "char option \<Rightarrow> string \<Rightarrow> (nat \<times> string) option" where
  \<comment> \<open>\<open>/\[[^\]]*\]\(data:[^)]+\)/\<close> at one position, replaced by the empty string\<close>
  "matchDataLink prev s =
     (case s of
        [] \<Rightarrow> None
      | c # cs \<Rightarrow>
          if c \<noteq> CHR ''['' then None
          else
            let text = takeWhile (\<lambda>x. x \<noteq> CHR '']'') cs;
                r1 = dropWhile (\<lambda>x. x \<noteq> CHR '']'') cs
            in if r1 = [] \<or> \<not> startsWith ''(data:'' (tl r1) then None
               else
                 let r2 = drop 6 (tl r1);
                     url = takeWhile (\<lambda>x. x \<noteq> CHR '')'') r2;
                     r3 = dropWhile (\<lambda>x. x \<noteq> CHR '')'') r2
                 in if url = [] \<or> r3 = [] then None
                    else Some (length text + length url + 9, []))"

definition matchDataImage :: "char option \<Rightarrow> string \<Rightarrow> (nat \<times> string) option" where
  \<comment> \<open>\<open>/!\[[^\]]*\]\(data:[^)]+\)/\<close> at one position, replaced by the empty string\<close>
  "matchDataImage prev s =
     (case s of
        [] \<Rightarrow> None
      | c # cs \<Rightarrow>
          if c \<noteq> CHR ''!'' then None
          else (case matchDataLink (Some c) cs of
                  None \<Rightarrow> None
                | Some (n, out) \<Rightarrow> Some (Suc n, [])))"

definition lastLineEnd :: "string \<Rightarrow> nat option" where
  \<comment> \<open>the index of the last line terminator of a run of white space\<close>
  "lastLineEnd ws =
     (case dropWhile (\<lambda>x. \<not> isLineTerminator x) (rev ws) of
        [] \<Rightarrow> None
      | t # pre \<Rightarrow> Some (length pre))"

definition matchOrphanNumber :: "char option \<Rightarrow> string \<Rightarrow> (nat \<times> string) option" where
  \<comment> \<open>\<open>/^\d+\.\s*$/m\<close> at one position, replaced by the empty string. \<open>\s*\<close> takes the
      longest stretch of white space that ends where \<open>$\<close> holds: at the end of the string
      or in front of a line terminator.\<close>
  "matchOrphanNumber prev s =
     (if \<not> (case prev of None \<Rightarrow> True | Some p \<Rightarrow> isLineTerminator p) then None
      else
        let digits = takeWhile isDigit s;
            r1 = dropWhile isDigit s
        in if digits = [] then None
           else (case r1 of
                   [] \<Rightarrow> None
                 | d # r2 \<Rightarrow>
                     if d \<noteq> CHR ''.'' then None
                     else
                       let ws = takeWhile isSpace r2;
                           r3 = dropWhile isSpace r2
                       in if r3 = [] then Some (length digits + 1 + length ws, [])
                          else (case lastLineEnd ws of
                                  None \<Rightarrow> None
                                | Some k \<Rightarrow> Some (length digits + 1 + k, []))))"

definition matchBlankLines :: "char option \<Rightarrow> string \<Rightarrow> (nat \<times> string) option" where
  \<comment> \<open>\<open>/\n{3,}/\<close> at one position, replaced by two line feeds\<close>
  "matchBlankLines prev s =
     (let n = length (takeWhile (\<lambda>x. x = CHR 0x0A) s)
      in if 3 \<le> n then Some (n, [CHR 0x0A, CHR 0x0A]) else None)"

definition cleanupTurndownOutput :: "string \<Rightarrow> string" where
  \<comment> \<open>\<open>src/shared/turndown.ts\<close>\<close>
  "cleanupTurndownOutput markdown =
     (let m1 = replace_g (matchLink linkReplacement) markdown;
          m2 = replace_g matchDataImage m1;
          m3 = replace_g matchDataLink m2;
          m4 = replace_g matchOrphanNumber m3;
          m5 = replace_g matchBlankLines m4
      in trim m5)"

definition cleanupTurndownOutput_bun :: "string \<Rightarrow> string" where
  \<comment> \<open>the copy in the bun process; the toolbar view (\<open>lib/rpc.ts\<close>) has the same text\<close>
  "cleanupTurndownOutput_bun markdown =
     (let m1 = replace_g (matchLink linkReplacement_bun) markdown;
          m2 = replace_g matchOrphanNumber m1;
          m3 = replace_g matchBlankLines m2
      in trim m3)"

fun noBlankRun :: "string \<Rightarrow> bool" where
  \<comment> \<open>at no position do three line feeds follow one another\<close>
  "noBlankRun [] = True"
| "noBlankRun (c # cs) = (length (takeWhile (\<lambda>x. x = CHR 0x0A) (c # cs)) < 3 \<and> noBlankRun cs)"

abbreviation "NL \<equiv> (\<lambda>x. x = CHR 0x0A)"

section \<open>Converter rules\<close>

text \<open>
  The conversion engine hands a rule the DOM node it is asked about. The rules use the
  node's name, its attributes, its text content and selector queries for descendants,
  over this tree. Element names are the upper-case names the DOM reports for HTML elements.
\<close>

datatype node = Element string "(string \<times> string) list" "node list" | Text string

fun nodeName :: "node \<Rightarrow> string" where
  "nodeName (Element name attrs children) = name"
| "nodeName (Text t) = ''#text''"

fun getAttribute :: "node \<Rightarrow> string \<Rightarrow> string option" where
  \<comment> \<open>\<open>None\<close> is JavaScript's \<open>null\<close>\<close>
  "getAttribute (Element name attrs children) k = map_of attrs k"
| "getAttribute (Text t) k = None"

fun textContent :: "node \<Rightarrow> string" where
  "textContent (Text t) = t"
| "textContent (Element name attrs children) = concat (map textContent children)"

fun descendants :: "node \<Rightarrow> node list" where
  \<comment> \<open>in document order, the node itself left out\<close>
  "descendants (Text t) = []"
| "descendants (Element name attrs children) = concat (map (\<lambda>c. c # descendants c) children)"



definition querySelector_img_alt :: "node \<Rightarrow> node option" where
  \<comment> \<open>\<open>node.querySelector("img[alt]")\<close>\<close>
  "querySelector_img_alt n =
     find (\<lambda>d. nodeName d = ''IMG'' \<and> getAttribute d ''alt'' \<noteq> None) (descendants n)"

definition attributeOrEmpty :: "node \<Rightarrow> string \<Rightarrow> string" where
  \<comment> \<open>\<open>String(node?.getAttribute?.(k) ?? "")\<close>\<close>
  "attributeOrEmpty n k = (case getAttribute n k of None \<Rightarrow> [] | Some v \<Rightarrow> v)"

definition getLinkLabel :: "node \<Rightarrow> string" where
  "getLinkLabel n =
     (let textContent' = normalizeWhitespace (textContent n) in
      if textContent' \<noteq> [] then textContent'
      else
        let ariaLabel = normalizeWhitespace (attributeOrEmpty n ''aria-label'') in
        if ariaLabel \<noteq> [] then ariaLabel
        else
          let title = normalizeWhitespace (attributeOrEmpty n ''title'') in
          if title \<noteq> [] then title
          else
            let imgAlt = normalizeWhitespace
                  (case querySelector_img_alt n of None \<Rightarrow> [] | Some img \<Rightarrow> attributeOrEmpty img ''alt'') in
            if imgAlt \<noteq> [] then imgAlt else [])"

text \<open>
  A rule is the object literal handed to \<open>addRule\<close>: it has the two properties \<open>filter\<close>
  and \<open>replacement\<close>, and no other. The name given to \<open>addRule\<close> beside it is not a
  property of the object. The replacement is called with the converted content of the
  node's children and with the node.
\<close>

record rule =
  rfilter :: "node \<Rightarrow> bool"
  replacement :: "string \<Rightarrow> node \<Rightarrow> string"



definition preserveBlankLinks :: rule where
  \<comment> \<open>\<open>src/shared/turndown.ts\<close>\<close>
  "preserveBlankLinks =
     \<lparr>rfilter = (\<lambda>n. nodeName n = ''A'' \<and> getAttribute n ''href'' \<noteq> None
                     \<and> normalizeWhitespace (textContent n) = []),
      replacement = (\<lambda>content n.
         let href = trim (attributeOrEmpty n ''href'');
             label = (if getLinkLabel n \<noteq> [] then getLinkLabel n else href)
         in if href = [] then label else ''['' @ label @ '']('' @ href @ '')'')\<rparr>"

definition removeBlankLinks :: rule where
  \<comment> \<open>the bun process and the toolbar view\<close>
  "removeBlankLinks =
     \<lparr>rfilter = (\<lambda>n. nodeName n = ''A'' \<and> getAttribute n ''href'' \<noteq> None
                     \<and> trim (textContent n) = []),
      replacement = (\<lambda>content n. [])\<rparr>"

fun findIndex :: "('a \<Rightarrow> bool) \<Rightarrow> 'a list \<Rightarrow> nat option" where
  \<comment> \<open>\<open>None\<close> is JavaScript's \<open>-1\<close>\<close>
  "findIndex P [] = None"
| "findIndex P (x # xs) = (if P x then Some 0 else map_option Suc (findIndex P xs))"




section \<open>Documents, tabs and the session\<close>

record PageContent =
  url :: string
  markdown :: string
  rawHtml :: string
  title :: string
  wasMarkdown :: bool

text \<open>
  The fields \<open>id\<close>, \<open>url\<close> and \<open>title\<close> of a tab are \<open>tab_id\<close>, \<open>tab_url\<close> and
  \<open>tab_title\<close> here. The toolbar view's tab has one more field, \<open>isActive\<close>, which it
  sets to false at creation and never reads; the same record stands for both.
\<close>

record Tab =
  tab_id :: int
  tab_url :: string
  tab_title :: string
  history :: "string list"
  historyIndex :: int
  isLoading :: bool
  content :: "PageContent option"

record NavigationState =
  canGoBack :: bool
  canGoForward :: bool
  nav_isLoading :: bool
  nav_url :: string
  nav_title :: string

text \<open>The module state of the bun process: \<open>tabs\<close>, \<open>activeTabId\<close>, \<open>nextTabId\<close>.\<close>

record session =
  tabs :: "Tab list"
  activeTabId :: int
  nextTabId :: int

datatype reply = Success | Failure | Rejected | TabId int

definition newTab :: "int \<Rightarrow> string \<Rightarrow> Tab" where
  "newTab i ttl =
     \<lparr>tab_id = i, tab_url = [], tab_title = ttl, history = [], historyIndex = - 1,
      isLoading = False, content = None\<rparr>"

definition initialSession :: session where
  \<comment> \<open>after the module has run: one tab, active\<close>
  "initialSession = \<lparr>tabs = [newTab 1 ''New Tab''], activeTabId = 1, nextTabId = 2\<rparr>"

definition getActiveTab :: "session \<Rightarrow> Tab option" where
  "getActiveTab s = find (\<lambda>t. tab_id t = activeTabId s) (tabs s)"

definition activeIndex :: "session \<Rightarrow> nat option" where
  \<comment> \<open>where in \<open>tabs\<close> the object is that \<open>getActiveTab\<close> returns\<close>
  "activeIndex s = findIndex (\<lambda>t. tab_id t = activeTabId s) (tabs s)"

definition updateTabAt :: "nat \<Rightarrow> (Tab \<Rightarrow> Tab) \<Rightarrow> session \<Rightarrow> session" where
  \<comment> \<open>assignments to the fields of the tab object held at position \<open>i\<close>\<close>
  "updateTabAt i f s = s\<lparr>tabs := (tabs s)[i := f (tabs s ! i)]\<rparr>"

definition getNavigationState :: "session \<Rightarrow> NavigationState" where
  "getNavigationState s =
     (case getActiveTab s of
        Some tab \<Rightarrow>
          \<lparr>canGoBack = (historyIndex tab > 0),
           canGoForward = (historyIndex tab < int (length (history tab)) - 1),
           nav_isLoading = isLoading tab, nav_url = tab_url tab, nav_title = tab_title tab\<rparr>
      | None \<Rightarrow>
          \<lparr>canGoBack = False, canGoForward = False, nav_isLoading = False,
           nav_url = [], nav_title = []\<rparr>)"

subsection \<open>History\<close>

definition entryAt :: "string list \<Rightarrow> int \<Rightarrow> string option" where
  \<comment> \<open>\<open>history[i]\<close>; \<open>None\<close> is \<open>undefined\<close>\<close>
  "entryAt h i = (if 0 \<le> i \<and> i < int (length h) then Some (h ! nat i) else None)"

definition slice0 :: "int \<Rightarrow> 'a list \<Rightarrow> 'a list" where
  \<comment> \<open>\<open>xs.slice(0, e)\<close>; a negative end counts from the end of the array\<close>
  "slice0 e xs = (if e < 0 then take (nat (int (length xs) + e)) xs else take (nat e) xs)"

definition storeContent :: "PageContent \<Rightarrow> Tab \<Rightarrow> Tab" where
  "storeContent c t = t\<lparr>tab_url := url c, tab_title := title c, content := Some c, isLoading := False\<rparr>"

definition truncateForward :: "Tab \<Rightarrow> Tab" where
  "truncateForward t =
     (if historyIndex t < int (length (history t)) - 1
      then t\<lparr>history := slice0 (historyIndex t + 1) (history t)\<rparr> else t)"

definition pushHistory :: "string \<Rightarrow> Tab \<Rightarrow> Tab" where
  \<comment> \<open>\<open>tab.history.push(u); tab.historyIndex = tab.history.length - 1\<close>\<close>
  "pushHistory u t = t\<lparr>history := history t @ [u], historyIndex := int (length (history t))\<rparr>"

definition commitHistory :: "string \<Rightarrow> Tab \<Rightarrow> Tab" where
  \<comment> \<open>the history update of the bun process's \<open>navigate\<close>\<close>
  "commitHistory u t =
     (let t1 = truncateForward t;
          lastUrl = entryAt (history t1) (int (length (history t1)) - 1);
          t2 = (if lastUrl \<noteq> Some u then t1\<lparr>history := history t1 @ [u]\<rparr> else t1)
      in t2\<lparr>historyIndex := int (length (history t2)) - 1\<rparr>)"

subsection \<open>Request handlers of the bun process\<close>

text \<open>
  A handler that fetches is suspended at \<open>await fetchPage(...)\<close>. Its part before the
  suspension and its part after it are functions on the tab object the handler holds;
  the second takes what the fetch resolved to (\<open>None\<close> when the promise is rejected).
  A handler run without interruption is the two parts one after the other.
\<close>

definition navigate_begin :: "string \<Rightarrow> Tab \<Rightarrow> Tab" where
  "navigate_begin normalizedUrl t = t\<lparr>isLoading := True, tab_url := normalizedUrl\<rparr>"

definition navigate_resume :: "PageContent option \<Rightarrow> Tab \<Rightarrow> Tab" where
  "navigate_resume fetched t =
     (case fetched of
        Some c \<Rightarrow> commitHistory (url c) (storeContent c t)
      | None \<Rightarrow> t\<lparr>isLoading := False\<rparr>)"

definition replay_begin :: "int \<Rightarrow> Tab \<Rightarrow> Tab" where
  \<comment> \<open>\<open>goBack\<close> (\<open>d = -1\<close>) and \<open>goForward\<close> (\<open>d = 1\<close>) after their guard. Outside the
      history JavaScript reads \<open>undefined\<close> for the URL; the field is a string, and the
      model stores the empty string there.\<close>
  "replay_begin d t =
     (let i = historyIndex t + d
      in t\<lparr>historyIndex := i, isLoading := True,
            tab_url := (case entryAt (history t) i of Some u \<Rightarrow> u | None \<Rightarrow> [])\<rparr>)"

definition replay_resume :: "PageContent option \<Rightarrow> Tab \<Rightarrow> Tab" where
  "replay_resume fetched t = (case fetched of Some c \<Rightarrow> storeContent c t | None \<Rightarrow> t)"

definition reload_resume :: "PageContent option \<Rightarrow> Tab \<Rightarrow> Tab" where
  "reload_resume fetched t =
     (case fetched of
        Some c \<Rightarrow> t\<lparr>tab_title := title c, content := Some c, isLoading := False\<rparr>
      | None \<Rightarrow> t)"

definition fetchReply :: "PageContent option \<Rightarrow> reply" where
  "fetchReply fetched = (case fetched of Some c \<Rightarrow> Success | None \<Rightarrow> Rejected)"

definition navigate :: "string \<Rightarrow> PageContent option \<Rightarrow> session \<Rightarrow> reply \<times> session" where
  \<comment> \<open>\<open>normalizeUrl\<close> is called first: when it throws, the request is rejected and
      nothing has been changed. The strings of the session are in the 8-bit range;
      the URL goes to \<open>normalizeUrl\<close> as code units, and the result comes back the same way.\<close>
  "navigate u fetched s =
     (case normalizeUrl (js u) of
        Inl e \<Rightarrow> (Rejected, s)
      | Inr r \<Rightarrow>
          let normalizedUrl = unjs r in
          if normalizedUrl = [] then (Failure, s)
          else
            let (i, s1) =
                  (case activeIndex s of
                     Some i \<Rightarrow> (i, s)
                   | None \<Rightarrow>
                       (length (tabs s),
                        s\<lparr>tabs := tabs s @ [newTab (nextTabId s) []],
                          activeTabId := nextTabId s, nextTabId := nextTabId s + 1\<rparr>))
            in (if fetched = None then Failure else Success,
                updateTabAt i (\<lambda>t. navigate_resume fetched (navigate_begin normalizedUrl t)) s1))"

definition goBack :: "PageContent option \<Rightarrow> session \<Rightarrow> reply \<times> session" where
  "goBack fetched s =
     (case activeIndex s of
        None \<Rightarrow> (Failure, s)
      | Some i \<Rightarrow>
          if historyIndex (tabs s ! i) \<le> 0 then (Failure, s)
          else (fetchReply fetched,
                updateTabAt i (\<lambda>t. replay_resume fetched (replay_begin (- 1) t)) s))"

definition goForward :: "PageContent option \<Rightarrow> session \<Rightarrow> reply \<times> session" where
  "goForward fetched s =
     (case activeIndex s of
        None \<Rightarrow> (Failure, s)
      | Some i \<Rightarrow>
          if historyIndex (tabs s ! i) \<ge> int (length (history (tabs s ! i))) - 1 then (Failure, s)
          else (fetchReply fetched,
                updateTabAt i (\<lambda>t. replay_resume fetched (replay_begin 1 t)) s))"

definition reload :: "PageContent option \<Rightarrow> session \<Rightarrow> reply \<times> session" where
  \<comment> \<open>\<open>refetchForViewMode\<close> changes the state in the same way\<close>
  "reload fetched s =
     (case activeIndex s of
        None \<Rightarrow> (Failure, s)
      | Some i \<Rightarrow>
          if tab_url (tabs s ! i) = [] then (Failure, s)
          else (fetchReply fetched,
                updateTabAt i (\<lambda>t. reload_resume fetched (t\<lparr>isLoading := True\<rparr>)) s))"

definition stopLoading :: "session \<Rightarrow> reply \<times> session" where
  "stopLoading s =
     (case activeIndex s of
        None \<Rightarrow> (Success, s)
      | Some i \<Rightarrow> (Success, updateTabAt i (\<lambda>t. t\<lparr>isLoading := False\<rparr>) s))"

definition createTab :: "string option \<Rightarrow> PageContent option \<Rightarrow> session \<Rightarrow> reply \<times> session" where
  "createTab u fetched s =
     (let tab = newTab (nextTabId s) ''New Tab'';
          s1 = s\<lparr>tabs := tabs s @ [tab], activeTabId := tab_id tab, nextTabId := nextTabId s + 1\<rparr>
      in case u of
           None \<Rightarrow> (TabId (tab_id tab), s1)
         | Some v \<Rightarrow> if v = [] then (TabId (tab_id tab), s1) else navigate v fetched s1)"

definition closeTab :: "int \<Rightarrow> session \<Rightarrow> reply \<times> session" where
  "closeTab tabId s =
     (case findIndex (\<lambda>t. tab_id t = tabId) (tabs s) of
        None \<Rightarrow> (Failure, s)
      | Some index \<Rightarrow>
          let s1 = s\<lparr>tabs := take index (tabs s) @ drop (Suc index) (tabs s)\<rparr>
          in if activeTabId s1 = tabId then
               (if length (tabs s1) > 0 then
                  let newIndex = min index (length (tabs s1) - 1)
                  in (Success, s1\<lparr>activeTabId := tab_id (tabs s1 ! newIndex)\<rparr>)
                else
                  let newTab' = newTab (nextTabId s1) ''New Tab''
                  in (Success, s1\<lparr>tabs := tabs s1 @ [newTab'], activeTabId := tab_id newTab',
                                  nextTabId := nextTabId s1 + 1\<rparr>))
             else (Success, s1))"

definition switchTab :: "int \<Rightarrow> session \<Rightarrow> reply \<times> session" where
  "switchTab tabId s =
     (case find (\<lambda>t. tab_id t = tabId) (tabs s) of
        None \<Rightarrow> (Failure, s)
      | Some tab \<Rightarrow> (Success, s\<lparr>activeTabId := tabId\<rparr>))"

definition orNull :: "string option \<Rightarrow> string option" where
  \<comment> \<open>\<open>x || null\<close> for a string or \<open>undefined\<close>: the empty string is falsy\<close>
  "orNull x = (case x of None \<Rightarrow> None | Some v \<Rightarrow> if v = [] then None else Some v)"

definition webviewNavigated :: "(string \<Rightarrow> string + string) \<Rightarrow> string \<Rightarrow> Tab \<Rightarrow> Tab" where
  \<comment> \<open>\<open>hostname u\<close> is \<open>new URL(u).hostname\<close>: \<open>Inr\<close> the host, or \<open>Inl\<close> the message of
      the error the constructor throws\<close>
  "webviewNavigated hostname u t =
     (let t0 = t\<lparr>tab_url := u\<rparr>;
          currentUrl = orNull (entryAt (history t0) (historyIndex t0));
          backUrl = (if historyIndex t0 > 0 then entryAt (history t0) (historyIndex t0 - 1) else None);
          forwardUrl = (if historyIndex t0 < int (length (history t0)) - 1
                        then entryAt (history t0) (historyIndex t0 + 1) else None);
          t1 = (if currentUrl = Some u then t0
                else if backUrl = Some u then t0\<lparr>historyIndex := historyIndex t0 - 1\<rparr>
                else if forwardUrl = Some u then t0\<lparr>historyIndex := historyIndex t0 + 1\<rparr>
                else pushHistory u (truncateForward t0))
      in t1\<lparr>tab_title := (case hostname u of Inr h \<Rightarrow> h | Inl e \<Rightarrow> u)\<rparr>)"

definition onWebviewNavigated :: "(string \<Rightarrow> string + string) \<Rightarrow> string \<Rightarrow> session \<Rightarrow> reply \<times> session" where
  "onWebviewNavigated hostname u s =
     (case activeIndex s of
        None \<Rightarrow> (Failure, s)
      | Some i \<Rightarrow> (Success, updateTabAt i (webviewNavigated hostname u) s))"

datatype request =
    Navigate string "PageContent option"
  | GoBack "PageContent option"
  | GoForward "PageContent option"
  | Reload "PageContent option"
  | StopLoading
  | CreateTab "string option" "PageContent option"
  | CloseTab int
  | SwitchTab int
  | RefetchForViewMode "PageContent option"
  | OnWebviewNavigated string

fun handle :: "(string \<Rightarrow> string + string) \<Rightarrow> request \<Rightarrow> session \<Rightarrow> reply \<times> session" where
  "handle hostname (Navigate u fetched) s = navigate u fetched s"
| "handle hostname (GoBack fetched) s = goBack fetched s"
| "handle hostname (GoForward fetched) s = goForward fetched s"
| "handle hostname (Reload fetched) s = reload fetched s"
| "handle hostname StopLoading s = stopLoading s"
| "handle hostname (CreateTab u fetched) s = createTab u fetched s"
| "handle hostname (CloseTab tabId) s = closeTab tabId s"
| "handle hostname (SwitchTab tabId) s = switchTab tabId s"
| "handle hostname (RefetchForViewMode fetched) s = reload fetched s"
| "handle hostname (OnWebviewNavigated u) s = onWebviewNavigated hostname u s"

fun run :: "(string \<Rightarrow> string + string) \<Rightarrow> request list \<Rightarrow> session \<Rightarrow> session" where
  \<comment> \<open>requests handled one after the other, none suspended while another runs\<close>
  "run hostname [] s = s"
| "run hostname (r # rs) s = run hostname rs (snd (handle hostname r s))"

section \<open>Fetching a page\<close>

record BrowserSettings =
  sendAcceptMd :: bool
  autoConvert :: bool
  allowJavascript :: bool

text \<open>
  What the network layer hands to \<open>fetchPage\<close>: the \<open>content-type\<close> header (the empty
  string when absent), the URL after redirects, and the body as decoded text. A fetch
  that throws carries the error's message.
\<close>

record response =
  contentType :: string
  responseUrl :: string
  responseText :: string

datatype fetchOutcome = FetchFailed string | Fetched response

subsection \<open>The start page\<close>

definition START_PAGE_URL :: string where
  "START_PAGE_URL = ''mdbrowse://start''"

definition START_PAGE_TITLE :: string where
  "START_PAGE_TITLE = ''MDBrowse''"

definition START_PAGE_MARKDOWN :: string where
  "START_PAGE_MARKDOWN = concat
     [
       ''# MDBrowse\<newline>'',
       ''\<newline>'',
       ''A markdown-first browser. Choose a destination:\<newline>'',
       ''\<newline>'',
       ''- [docs.vercel.com](https://docs.vercel.com)\<newline>'',
       ''- [docs.needle.tools](https://docs.needle.tools)\<newline>'',
       ''- [needle.tools](https://needle.tools)\<newline>'',
       ''- [samples.needle.tools](https://samples.needle.tools)\<newline>'',
       ''- [github.com](https://github.com)\<newline>'',
       ''- [wikipedia.org](https://wikipedia.org)\<newline>'',
       ''- [google.com](https://google.com)\<newline>'',
       ''- [news.ycombinator.com](https://news.ycombinator.com)\<newline>''
     ]"

definition START_PAGE_HTML :: string where
  "START_PAGE_HTML = concat
     [
       ''<!DOCTYPE html>\<newline>'',
       ''<html>\<newline>'',
       ''<head>\<newline>'',
       ''  <meta charset=\"UTF-8\" />\<newline>'',
       ''  <title>MDBrowse</title>\<newline>'',
       ''  <style>\<newline>'',
       ''    :root { color-scheme: light dark; }\<newline>'',
       ''    body {\<newline>'',
       ''      font-family: -apple-system, BlinkMacSystemFont, \"SF Pro Text\", \"Segoe UI\", Roboto, system-ui, sans-serif;\<newline>'',
       ''      margin: 0;\<newline>'',
       ''      padding: 32px 28px;\<newline>'',
       ''      line-height: 1.6;\<newline>'',
       ''      background: #ffffff;\<newline>'',
       ''      color: #1a1a1a;\<newline>'',
       ''    }\<newline>'',
       ''    h1 { margin: 0 0 8px 0; }\<newline>'',
       ''    p { margin: 8px 0 16px 0; }\<newline>'',
       ''    ul { margin: 0 0 20px 18px; padding: 0; }\<newline>'',
       ''    li { margin: 6px 0; }\<newline>'',
       ''    a { color: #007acc; text-decoration: none; }\<newline>'',
       ''    a:hover { text-decoration: underline; }\<newline>'',
       ''    kbd {\<newline>'',
       ''      font-family: ui-monospace, SFMono-Regular, Menlo, Monaco, Consolas, \"Liberation Mono\", \"Courier New\", monospace;\<newline>'',
       ''      font-size: 0.9em;\<newline>'',
       ''      padding: 2px 6px;\<newline>'',
       ''      border-radius: 6px;\<newline>'',
       ''      background: rgba(128, 128, 128, 0.15);\<newline>'',
       ''      border: 1px solid rgba(128, 128, 128, 0.25);\<newline>'',
       ''    }\<newline>'',
       ''    @media (prefers-color-scheme: dark) {\<newline>'',
       ''      body { background: #1a1a1a; color: #e0e0e0; }\<newline>'',
       ''      a { color: #4db8ff; }\<newline>'',
       ''      kbd { background: rgba(255, 255, 255, 0.08); border-color: rgba(255, 255, 255, 0.2); }\<newline>'',
       ''    }\<newline>'',
       ''  </style>\<newline>'',
       ''</head>\<newline>'',
       ''<body>\<newline>'',
       ''  <h1>MDBrowse</h1>\<newline>'',
       ''  <p>A markdown-first browser. Choose a destination:</p>\<newline>'',
       ''  <ul>\<newline>'',
       ''    <li><a href=\"https://docs.vercel.com\">docs.vercel.com</a></li>\<newline>'',
       ''    <li><a href=\"https://docs.needle.tools\">docs.needle.tools</a></li>\<newline>'',
       ''    <li><a href=\"https://needle.tools\">needle.tools</a></li>\<newline>'',
       ''    <li><a href=\"https://samples.needle.tools\">samples.needle.tools</a></li>\<newline>'',
       ''    <li><a href=\"https://github.com\">github.com</a></li>\<newline>'',
       ''    <li><a href=\"https://wikipedia.org\">wikipedia.org</a></li>\<newline>'',
       ''    <li><a href=\"https://google.com\">google.com</a></li>\<newline>'',
       ''    <li><a href=\"https://news.ycombinator.com\">news.ycombinator.com</a></li>\<newline>'',
       ''  </ul>\<newline>'',
       ''</body>\<newline>'',
       ''</html>\<newline>''
     ]"

fun firstMatch :: "(char option \<Rightarrow> string \<Rightarrow> 'a option) \<Rightarrow> char option \<Rightarrow> string \<Rightarrow> 'a option" where
  \<comment> \<open>\<open>s.match(re)\<close> without flag \<open>g\<close>: the expression tried at each position from the left\<close>
  "firstMatch m prev [] = m prev []"
| "firstMatch m prev (c # cs) =
     (case m prev (c # cs) of Some x \<Rightarrow> Some x | None \<Rightarrow> firstMatch m (Some c) cs)"

fun findCI :: "string \<Rightarrow> string \<Rightarrow> nat option" where
  \<comment> \<open>the first position at which the literal \<open>p\<close> occurs in \<open>s\<close> under flag \<open>i\<close>\<close>
  "findCI p [] = (if p = [] then Some 0 else None)"
| "findCI p (c # cs) = (if startsWithCI p (c # cs) then Some 0 else map_option Suc (findCI p cs))"

definition matchHeadingAt :: "char option \<Rightarrow> string \<Rightarrow> string option" where
  \<comment> \<open>\<open>/^#\s+(.+)$/m\<close> at one position; the result is group 1. When the white space
      after \<open>#\<close> runs to the end of the string, \<open>\s+\<close> gives characters back until
      \<open>.+\<close> finds one that is no line terminator.\<close>
  "matchHeadingAt prev s =
     (if \<not> (case prev of None \<Rightarrow> True | Some p \<Rightarrow> isLineTerminator p) then None
      else (case s of
              [] \<Rightarrow> None
            | c # cs \<Rightarrow>
                if c \<noteq> CHR ''#'' then None
                else
                  let ws = takeWhile isSpace cs;
                      r = dropWhile isSpace cs
                  in if ws = [] then None
                     else if r \<noteq> [] then Some (takeWhile (\<lambda>x. \<not> isLineTerminator x) r)
                     else
                       let d = dropWhile isLineTerminator (rev (tl ws))
                       in if d = [] then None
                          else Some (takeWhile (\<lambda>x. \<not> isLineTerminator x) (drop (length d) ws))))"

definition matchTitleAt :: "char option \<Rightarrow> string \<Rightarrow> string option" where
  \<comment> \<open>\<open>/<title[^>]*>([^<]+)<\/title>/i\<close> at one position; the result is group 1\<close>
  "matchTitleAt prev s =
     (if \<not> startsWithCI ''<title'' s then None
      else (case dropWhile (\<lambda>x. x \<noteq> CHR ''>'') (drop 6 s) of
              [] \<Rightarrow> None
            | g # r2 \<Rightarrow>
                let t = takeWhile (\<lambda>x. x \<noteq> CHR ''<'') r2;
                    r3 = dropWhile (\<lambda>x. x \<noteq> CHR ''<'') r2
                in if t \<noteq> [] \<and> startsWithCI ''</title>'' r3 then Some t else None))"

definition matchRegion :: "string \<Rightarrow> string \<Rightarrow> char option \<Rightarrow> string \<Rightarrow> (nat \<times> string) option" where
  \<comment> \<open>\<open>/open[\s\S]*?close/i\<close> at one position, replaced by the empty string\<close>
  "matchRegion opn cls prev s =
     (if \<not> startsWithCI opn s then None
      else (case findCI cls (drop (length opn) s) of
              None \<Rightarrow> None
            | Some k \<Rightarrow> Some (length opn + k + length cls, [])))"

definition matchEmptyAnchor :: "char option \<Rightarrow> string \<Rightarrow> (nat \<times> string) option" where
  \<comment> \<open>\<open>/<a[^>]*>\s*<\/a>/i\<close> at one position, replaced by the empty string\<close>
  "matchEmptyAnchor prev s =
     (if \<not> startsWithCI ''<a'' s then None
      else
        let attrs = takeWhile (\<lambda>x. x \<noteq> CHR ''>'') (drop 2 s);
            r1 = dropWhile (\<lambda>x. x \<noteq> CHR ''>'') (drop 2 s)
        in (case r1 of
              [] \<Rightarrow> None
            | g # r2 \<Rightarrow>
                let ws = takeWhile isSpace r2
                in if startsWithCI ''</a>'' (dropWhile isSpace r2)
                   then Some (length attrs + length ws + 7, [])
                   else None))"

definition matchElementAt :: "string \<Rightarrow> string \<Rightarrow> char option \<Rightarrow> string \<Rightarrow> string option" where
  \<comment> \<open>\<open>/open[\s\S]*?>([\s\S]*?)close/i\<close> at one position; the result is group 1\<close>
  "matchElementAt opn cls prev s =
     (if \<not> startsWithCI opn s then None
      else (case dropWhile (\<lambda>x. x \<noteq> CHR ''>'') (drop (length opn) s) of
              [] \<Rightarrow> None
            | g # r2 \<Rightarrow> (case findCI cls r2 of None \<Rightarrow> None | Some k \<Rightarrow> Some (take k r2))))"

definition stripRegions :: "string \<Rightarrow> string" where
  \<comment> \<open>the chain of \<open>replace\<close> calls that cleans the HTML before conversion\<close>
  "stripRegions text =
     (let h1 = replace_g (matchRegion ''<head'' ''</head>'') text;
          h2 = replace_g (matchRegion ''<script'' ''</script>'') h1;
          h3 = replace_g (matchRegion ''<style'' ''</style>'') h2;
          h4 = replace_g (matchRegion ''<noscript'' ''</noscript>'') h3;
          h5 = replace_g (matchRegion ''<!--'' ''-->'') h4;
          h6 = replace_g (matchRegion ''<nav'' ''</nav>'') h5;
          h7 = replace_g (matchRegion ''<footer'' ''</footer>'') h6;
          h8 = replace_g (matchRegion ''<aside'' ''</aside>'') h7;
          h9 = replace_g (matchRegion ''<form'' ''</form>'') h8;
          h10 = replace_g (matchRegion ''<iframe'' ''</iframe>'') h9
      in replace_g matchEmptyAnchor h10)"

definition selectRegion :: "string \<Rightarrow> string" where
  \<comment> \<open>the content of \<open>main\<close>, else of \<open>article\<close>, else of \<open>body\<close>, else everything\<close>
  "selectRegion cleanHtml =
     (case firstMatch (matchElementAt ''<main'' ''</main>'') None cleanHtml of
        Some m \<Rightarrow> m
      | None \<Rightarrow>
          (case firstMatch (matchElementAt ''<article'' ''</article>'') None cleanHtml of
             Some m \<Rightarrow> m
           | None \<Rightarrow>
               (case firstMatch (matchElementAt ''<body'' ''</body>'') None cleanHtml of
                  Some b \<Rightarrow> b
                | None \<Rightarrow> cleanHtml)))"

definition looksNative :: "string \<Rightarrow> string \<Rightarrow> bool" where
  \<comment> \<open>the test that classifies a response as markdown\<close>
  "looksNative ctype text =
     (includes_str ''text/markdown'' ctype \<or> includes_str ''text/x-markdown'' ctype
      \<or> (includes_str ''text/plain'' ctype \<and> \<not> startsWith ''<!'' (trim text)
          \<and> \<not> startsWith ''<html'' (trim text)))"

definition errorDocument :: "string \<Rightarrow> string \<Rightarrow> PageContent" where
  "errorDocument u errorMessage =
     \<lparr>url = u,
      markdown = ''# Error Loading Page\<newline>\<newline>Failed to load: '' @ u
                 @ ''\<newline>\<newline>**Error:** '' @ errorMessage,
      rawHtml = ''<h1>Error Loading Page</h1><p>Failed to load: '' @ u
                @ ''</p><p><strong>Error:</strong> '' @ errorMessage @ ''</p>'',
      title = ''Error'',
      wasMarkdown = False\<rparr>"

text \<open>
  Two functions of the platform and of the conversion engine are parameters:
  \<open>hostname u\<close> is \<open>new URL(u).hostname\<close> and \<open>turndown html\<close> is
  \<open>turndown.turndown(html)\<close>. Each answers \<open>Inr\<close> with its result or \<open>Inl\<close> with the
  message of the error it throws.
\<close>

definition startPage :: "BrowserSettings \<Rightarrow> (string \<Rightarrow> string + string) \<Rightarrow> string + PageContent" where
  \<comment> \<open>the branch for \<open>START_PAGE_URL\<close>, the same text in the bun process and the view\<close>
  "startPage st turndown =
     (if sendAcceptMd st then
        Inr \<lparr>url = START_PAGE_URL, markdown = START_PAGE_MARKDOWN, rawHtml = [],
             title = START_PAGE_TITLE, wasMarkdown = True\<rparr>
      else if autoConvert st then
        (case turndown START_PAGE_HTML of
           Inl e \<Rightarrow> Inl e
         | Inr md \<Rightarrow>
             Inr \<lparr>url = START_PAGE_URL, markdown = cleanupTurndownOutput_bun md,
                  rawHtml = START_PAGE_HTML, title = START_PAGE_TITLE, wasMarkdown = False\<rparr>)
      else
        Inr \<lparr>url = START_PAGE_URL, markdown = START_PAGE_HTML, rawHtml = START_PAGE_HTML,
             title = START_PAGE_TITLE, wasMarkdown = False\<rparr>)"

definition classify :: "BrowserSettings \<Rightarrow> (string \<Rightarrow> string + string) \<Rightarrow> (string \<Rightarrow> string + string)
    \<Rightarrow> string \<Rightarrow> string \<Rightarrow> string \<Rightarrow> string + PageContent" where
  \<comment> \<open>from the decoded text to the returned document; \<open>Inl\<close> when something throws\<close>
  "classify st hostname turndown ctype finalUrl text =
     (if looksNative ctype text then
        (case (case firstMatch matchHeadingAt None text of
                 Some h \<Rightarrow> Inr h
               | None \<Rightarrow> hostname finalUrl) of
           Inl e \<Rightarrow> Inl e
         | Inr ttl \<Rightarrow>
             Inr \<lparr>url = finalUrl, markdown = text, rawHtml = [], title = ttl, wasMarkdown = True\<rparr>)
      else
        (case (case firstMatch matchTitleAt None text of
                 Some t \<Rightarrow> Inr (trim t)
               | None \<Rightarrow> hostname finalUrl) of
           Inl e \<Rightarrow> Inl e
         | Inr ttl \<Rightarrow>
             if autoConvert st then
               (case turndown (selectRegion (stripRegions text)) of
                  Inl e \<Rightarrow> Inl e
                | Inr md \<Rightarrow>
                    Inr \<lparr>url = finalUrl, markdown = cleanupTurndownOutput_bun md, rawHtml = text,
                         title = ttl, wasMarkdown = False\<rparr>)
             else
               Inr \<lparr>url = finalUrl, markdown = text, rawHtml = text, title = ttl,
                    wasMarkdown = False\<rparr>))"

definition fetchPage :: "BrowserSettings \<Rightarrow> (string \<Rightarrow> string + string) \<Rightarrow> (string \<Rightarrow> string + string)
    \<Rightarrow> string \<Rightarrow> fetchOutcome \<Rightarrow> PageContent option" where
  \<comment> \<open>the bun process. \<open>None\<close>: the promise is rejected (only the start page can do that,
      its conversion being outside the \<open>try\<close>).\<close>
  "fetchPage st hostname turndown u outcome =
     (if u = START_PAGE_URL then
        (case startPage st turndown of Inl e \<Rightarrow> None | Inr d \<Rightarrow> Some d)
      else
        (case outcome of
           FetchFailed errorMessage \<Rightarrow> Some (errorDocument u errorMessage)
         | Fetched r \<Rightarrow>
             (case classify st hostname turndown (contentType r) (responseUrl r) (responseText r) of
                Inl errorMessage \<Rightarrow> Some (errorDocument u errorMessage)
              | Inr d \<Rightarrow> Some d)))"

definition shimFetchPage :: "BrowserSettings \<Rightarrow> (string \<Rightarrow> string + string) \<Rightarrow> (string \<Rightarrow> string + string)
    \<Rightarrow> string \<Rightarrow> fetchOutcome \<Rightarrow> PageContent option" where
  \<comment> \<open>the toolbar view, which has no \<open>try\<close>: whatever throws rejects the promise. Here
      \<open>responseUrl\<close> is the header \<open>x-final-url\<close> (the empty string when absent).\<close>
  "shimFetchPage st hostname turndown u outcome =
     (if u = START_PAGE_URL then
        (case startPage st turndown of Inl e \<Rightarrow> None | Inr d \<Rightarrow> Some d)
      else
        (case outcome of
           FetchFailed errorMessage \<Rightarrow> None
         | Fetched r \<Rightarrow>
             (let finalUrl = (if responseUrl r \<noteq> [] then responseUrl r else u)
              in case classify st hostname turndown (contentType r) finalUrl (responseText r) of
                   Inl errorMessage \<Rightarrow> None
                 | Inr d \<Rightarrow> Some d)))"

section \<open>The toolbar view without the bun process\<close>

definition initialShimState :: session where
  "initialShimState = \<lparr>tabs = [], activeTabId = 1, nextTabId = 1\<rparr>"

definition ensureShimTab :: "session \<Rightarrow> nat \<times> session" where
  \<comment> \<open>the position of the tab it returns, and the state it leaves\<close>
  "ensureShimTab s =
     (let s1 = (if length (tabs s) = 0
                then s\<lparr>tabs := tabs s @ [newTab (nextTabId s) ''New Tab''],
                       activeTabId := nextTabId s, nextTabId := nextTabId s + 1\<rparr>
                else s)
      in case activeIndex s1 of
           Some i \<Rightarrow> (i, s1)
         | None \<Rightarrow> (0, s1\<lparr>activeTabId := tab_id (tabs s1 ! 0)\<rparr>))"

definition shimSync :: "session \<Rightarrow> session" where
  \<comment> \<open>what \<open>shimSyncTabs\<close> and \<open>shimSyncNavigation\<close> do to the state\<close>
  "shimSync s = snd (ensureShimTab s)"

definition shimNavigate_resume :: "bool \<Rightarrow> PageContent \<Rightarrow> Tab \<Rightarrow> Tab" where
  "shimNavigate_resume updateHistory c t =
     (let t1 = t\<lparr>tab_url := url c,
                 tab_title := (if title c \<noteq> [] then title c else tab_title t),
                 isLoading := False, content := Some c\<rparr>
      in if updateHistory then
           (let lastUrl = entryAt (history t1) (int (length (history t1)) - 1)
            in if lastUrl \<noteq> Some (url c) then pushHistory (url c) (truncateForward t1) else t1)
         else t1)"

definition shimNavigate :: "bool \<Rightarrow> PageContent option \<Rightarrow> session \<Rightarrow> session" where
  "shimNavigate updateHistory fetched s =
     (let (i, s1) = ensureShimTab s;
          s2 = shimSync (shimSync (updateTabAt i (\<lambda>t. t\<lparr>isLoading := True\<rparr>) s1))
      in case fetched of
           None \<Rightarrow> s2
         | Some c \<Rightarrow> shimSync (shimSync (updateTabAt i (shimNavigate_resume updateHistory c) s2)))"

definition closeTab_shim :: "int \<Rightarrow> session \<Rightarrow> session" where
  "closeTab_shim tabId s =
     (case findIndex (\<lambda>t. tab_id t = tabId) (tabs s) of
        None \<Rightarrow> s
      | Some index \<Rightarrow>
          let wasActive = (activeTabId s = tabId);
              s1 = s\<lparr>tabs := take index (tabs s) @ drop (Suc index) (tabs s)\<rparr>;
              s2 = (if length (tabs s1) = 0 then
                      s1\<lparr>tabs := tabs s1 @ [newTab (nextTabId s1) ''New Tab''],
                         activeTabId := nextTabId s1, nextTabId := nextTabId s1 + 1\<rparr>
                    else if wasActive then
                      s1\<lparr>activeTabId := tab_id (tabs s1 ! min index (length (tabs s1) - 1))\<rparr>
                    else s1)
          in shimSync (shimSync s2))"

definition goBack_shim :: "PageContent option \<Rightarrow> session \<Rightarrow> session" where
  "goBack_shim fetched s =
     (let (i, s1) = ensureShimTab s
      in if historyIndex (tabs s1 ! i) \<le> 0 then s1
         else shimNavigate False fetched
                (updateTabAt i (\<lambda>t. t\<lparr>historyIndex := historyIndex t - 1\<rparr>) s1))"

definition goForward_shim :: "PageContent option \<Rightarrow> session \<Rightarrow> session" where
  "goForward_shim fetched s =
     (let (i, s1) = ensureShimTab s
      in if historyIndex (tabs s1 ! i) \<ge> int (length (history (tabs s1 ! i))) - 1 then s1
         else shimNavigate False fetched
                (updateTabAt i (\<lambda>t. t\<lparr>historyIndex := historyIndex t + 1\<rparr>) s1))"

section \<open>Invariants\<close>

definition historyOk :: "Tab \<Rightarrow> bool" where
  \<comment> \<open>the cursor is \<open>-1\<close> on an empty history and points at an entry otherwise\<close>
  "historyOk t =
     (- 1 \<le> historyIndex t \<and> historyIndex t < int (length (history t))
      \<and> ((historyIndex t = - 1) = (history t = [])))"

definition sessionOk :: "session \<Rightarrow> bool" where
  \<comment> \<open>there is a tab, and \<open>activeTabId\<close> is the id of one\<close>
  "sessionOk s = (tabs s \<noteq> [] \<and> getActiveTab s \<noteq> None)"

section \<open>Properties of the string operations\<close>


lemma trim_fix: "s = [] \<or> (\<not> isSpace (hd s) \<and> \<not> isSpace (last s)) \<Longrightarrow> trim s = s"
proof (cases s)
  case Nil thus ?thesis by (simp add: trim_def)
next
  case (Cons c cs)
  assume "s = [] \<or> (\<not> isSpace (hd s) \<and> \<not> isSpace (last s))"
  with Cons have h: "\<not> isSpace (hd s)" and l: "\<not> isSpace (last s)" by auto
  from Cons h have 1: "dropWhile isSpace s = s" by simp
  from Cons have ne: "s \<noteq> []" by simp
  have "hd (rev s) = last s" by (rule hd_rev)
  with l have "\<not> isSpace (hd (rev s))" by simp
  hence 2: "dropWhile isSpace (rev s) = rev s"
    unfolding dropWhile_eq_self_iff by blast
  show ?thesis by (simp add: trim_def 1 2)
qed

lemma trim_ends:
  assumes "trim s \<noteq> []"
  shows "\<not> isSpace (hd (trim s))" and "\<not> isSpace (last (trim s))"
proof -
  let ?d = "dropWhile isSpace s"
  let ?e = "dropWhile isSpace (rev ?d)"
  from assms have e: "?e \<noteq> []" by (simp add: trim_def)
  hence d: "?d \<noteq> []" by (cases "?d") auto
  from e have he: "\<not> isSpace (hd ?e)" by (rule hd_dropWhile)
  from d have hd: "\<not> isSpace (hd ?d)" by (rule hd_dropWhile)
  have "last (trim s) = hd ?e" using e by (simp add: trim_def last_rev)
  thus "\<not> isSpace (last (trim s))" using he by simp
  have "last (rev ?d) = hd ?d" using d by (simp add: last_rev)
  hence nl: "\<not> isSpace (last (rev ?d))" using hd by simp
  have "last (rev ?d) \<in> set (rev ?d)" using d by (intro last_in_set) simp
  hence "last ?e = last (rev ?d)" using nl by (rule dropWhile_last)
  hence "hd (trim s) = hd ?d" using e d by (simp add: trim_def hd_rev last_rev)
  thus "\<not> isSpace (hd (trim s))" using hd by simp
qed

lemma trim_idem: "trim (trim s) = trim s"
  by (rule trim_fix) (use trim_ends[of s] in blast)

lemma trim_pre: 
  assumes "p \<noteq> []" "\<not> isSpace (hd p)" "u = [] \<and> \<not> isSpace (last p) \<or> u \<noteq> [] \<and> \<not> isSpace (last u)"
  shows "trim (p @ u) = p @ u"
  by (rule trim_fix) (use assms in auto)

section \<open>URL normalization: errors and repeated application\<close>

lemma trim16_fix: "s = [] \<or> (\<not> isWhiteSpace (hd s) \<and> \<not> isWhiteSpace (last s)) \<Longrightarrow> trim16 s = s"
proof (cases s)
  case Nil thus ?thesis by (simp add: trim16_def)
next
  case (Cons c cs)
  assume "s = [] \<or> (\<not> isWhiteSpace (hd s) \<and> \<not> isWhiteSpace (last s))"
  with Cons have h: "\<not> isWhiteSpace (hd s)" and l: "\<not> isWhiteSpace (last s)" by auto
  from Cons h have 1: "dropWhile isWhiteSpace s = s" by simp
  have "hd (rev s) = last s" by (rule hd_rev)
  with l have "\<not> isWhiteSpace (hd (rev s))" by simp
  hence 2: "dropWhile isWhiteSpace (rev s) = rev s"
    unfolding dropWhile_eq_self_iff by blast
  show ?thesis by (simp add: trim16_def 1 2)
qed

lemma trim16_ends:
  assumes "trim16 s \<noteq> []"
  shows "\<not> isWhiteSpace (hd (trim16 s))" and "\<not> isWhiteSpace (last (trim16 s))"
proof -
  let ?d = "dropWhile isWhiteSpace s"
  let ?e = "dropWhile isWhiteSpace (rev ?d)"
  from assms have e: "?e \<noteq> []" by (simp add: trim16_def)
  hence d: "?d \<noteq> []" by (cases "?d") auto
  from e have he: "\<not> isWhiteSpace (hd ?e)" by (rule hd_dropWhile)
  from d have hd: "\<not> isWhiteSpace (hd ?d)" by (rule hd_dropWhile)
  have "last (trim16 s) = hd ?e" using e by (simp add: trim16_def last_rev)
  thus "\<not> isWhiteSpace (last (trim16 s))" using he by simp
  have "last (rev ?d) = hd ?d" using d by (simp add: last_rev)
  hence nl: "\<not> isWhiteSpace (last (rev ?d))" using hd by simp
  have "last (rev ?d) \<in> set (rev ?d)" using d by (intro last_in_set) simp
  hence "last ?e = last (rev ?d)" using nl by (rule dropWhile_last)
  hence "hd (trim16 s) = hd ?d" using e d by (simp add: trim16_def hd_rev last_rev)
  thus "\<not> isWhiteSpace (hd (trim16 s))" using hd by simp
qed

lemma trim16_idem: "trim16 (trim16 s) = trim16 s"
  by (rule trim16_fix) (use trim16_ends[of s] in blast)

lemma trim16_https:
  assumes "u \<noteq> []" "\<not> isWhiteSpace (last u)"
  shows "trim16 (js ''https://'' @ u) = js ''https://'' @ u"
proof (rule trim16_fix, rule disjI2, rule conjI)
  show "\<not> isWhiteSpace (hd (js ''https://'' @ u))" by (simp add: js_def isWhiteSpace_def)
  show "\<not> isWhiteSpace (last (js ''https://'' @ u))" using assms by simp
qed

lemma hexDigit_mod: "\<not> isWhiteSpace (hexDigit (b mod 16))"
proof -
  have "b mod 16 < 16" by simp
  hence "hexDigit (b mod 16) \<in> {48..57} \<union> {65..70}" unfolding hexDigit_def by auto
  thus ?thesis unfolding isWhiteSpace_def by auto
qed

lemma last_percentEncoded:
  "percentEncoded cp \<noteq> [] \<and> \<not> isWhiteSpace (last (percentEncoded cp))"
  by (simp add: percentEncoded_def utf8_def percentByte_def hexDigit_mod)

lemma unreserved_nospace: "uriUnreserved c \<Longrightarrow> \<not> isWhiteSpace c"
  unfolding uriUnreserved_def isWhiteSpace_def by auto

lemma followedBy_last:
  assumes "followedBy out rest = Inr q" "out \<noteq> []" "\<not> isWhiteSpace (last out)"
    and "\<And>r. rest = Inr r \<Longrightarrow> r = [] \<or> \<not> isWhiteSpace (last r)"
  shows "q \<noteq> [] \<and> \<not> isWhiteSpace (last q)"
proof (cases rest)
  case (Inl e) with assms(1) show ?thesis by (simp add: followedBy_def)
next
  case (Inr r)
  with assms(1) have q: "q = out @ r" by (simp add: followedBy_def)
  from assms(4)[OF Inr] show ?thesis using q assms(2,3) by (auto simp: last_append)
qed

lemma last_encodeURIComponent:
  "encodeURIComponent u = Inr q \<Longrightarrow> (u = [] \<and> q = []) \<or> (q \<noteq> [] \<and> \<not> isWhiteSpace (last q))"
proof (induction u arbitrary: q rule: encodeURIComponent.induct)
  case 1 thus ?case by simp
next
  case (2 c cs)
  show ?case
  proof (cases "uriUnreserved c")
    case True
    with "2.prems" have f: "followedBy [c] (encodeURIComponent cs) = Inr q" by simp
    have "\<And>r. encodeURIComponent cs = Inr r \<Longrightarrow> r = [] \<or> \<not> isWhiteSpace (last r)"
      using "2.IH"(1)[OF True] by blast
    from followedBy_last[OF f _ _ this] unreserved_nospace[OF True] show ?thesis by simp
  next
    case False
    note nu = this
    show ?thesis
    proof (cases "isLowSurrogate c")
      case True with nu "2.prems" show ?thesis by simp
    next
      case False
      note nl = this
      show ?thesis
      proof (cases "isHighSurrogate c")
        case True
        note hi = this
        show ?thesis
        proof (cases cs)
          case Nil with nu nl hi "2.prems" show ?thesis by simp
        next
          case (Cons d ds)
          show ?thesis
          proof (cases "isLowSurrogate d")
            case False with Cons nu nl hi "2.prems" show ?thesis by simp
          next
            case True
            let ?cp = "0x10000 + (c - 0xD800) * 0x400 + (d - 0xDC00)"
            from True Cons nu nl hi "2.prems"
            have f: "followedBy (percentEncoded ?cp) (encodeURIComponent ds) = Inr q" by simp
            have "\<And>r. encodeURIComponent ds = Inr r \<Longrightarrow> r = [] \<or> \<not> isWhiteSpace (last r)"
              using "2.IH"(2)[OF nu nl hi Cons True] by blast
            from followedBy_last[OF f _ _ this] last_percentEncoded[of ?cp] show ?thesis by blast
          qed
        qed
      next
        case False
        with nu nl "2.prems"
        have f: "followedBy (percentEncoded c) (encodeURIComponent cs) = Inr q" by simp
        have "\<And>r. encodeURIComponent cs = Inr r \<Longrightarrow> r = [] \<or> \<not> isWhiteSpace (last r)"
          using "2.IH"(3)[OF nu nl False] by blast
        from followedBy_last[OF f _ _ this] last_percentEncoded[of c] show ?thesis by blast
      qed
    qed
  qed
qed

lemma unreserved_nosurrogate: "uriUnreserved c \<Longrightarrow> \<not> isLowSurrogate c \<and> \<not> isHighSurrogate c"
  unfolding uriUnreserved_def isLowSurrogate_def isHighSurrogate_def by auto

lemma followedBy_Inl: "(\<exists>e. followedBy out rest = Inl e) \<longleftrightarrow> (\<exists>e. rest = Inl e)"
  by (cases rest) (simp_all add: followedBy_def)

lemma encodeURIComponent_throws:
  "(\<exists>e. encodeURIComponent u = Inl e) \<longleftrightarrow> hasLoneSurrogate u"
proof (induction u rule: encodeURIComponent.induct)
  case 1 show ?case by simp
next
  case (2 c cs)
  show ?case
  proof (cases "uriUnreserved c")
    case True
    thus ?thesis using "2.IH"(1)[OF True] unreserved_nosurrogate[OF True]
      by (simp add: followedBy_Inl)
  next
    case False
    note nu = this
    show ?thesis
    proof (cases "isLowSurrogate c")
      case True with nu show ?thesis by simp
    next
      case False
      note nl = this
      show ?thesis
      proof (cases "isHighSurrogate c")
        case True
        note hi = this
        show ?thesis
        proof (cases cs)
          case Nil with nu nl hi show ?thesis by simp
        next
          case (Cons d ds)
          show ?thesis
          proof (cases "isLowSurrogate d")
            case False with Cons nu nl hi show ?thesis by simp
          next
            case True
            thus ?thesis using "2.IH"(2)[OF nu nl hi Cons True] Cons nu nl hi
              by (simp add: followedBy_Inl)
          qed
        qed
      next
        case False
        thus ?thesis using "2.IH"(3)[OF nu nl False] nu nl by (simp add: followedBy_Inl)
      qed
    qed
  qed
qed

lemma matchesHttpScheme_https: "matchesHttpScheme (js ''https://'' @ u)"
  by (simp add: matchesHttpScheme_def startsWith_def js_def lower16_def)

lemma normalizeUrl_fixed:
  assumes "trim16 r = r" "r \<noteq> []" "startsWith (js ''mdbrowse://'') r \<or> matchesHttpScheme r"
  shows "normalizeUrl r = Inr r"
  using assms by (auto simp: normalizeUrl_def Let_def)

lemma normalizeUrl_cases:
  obtains (empty) "trim16 s = []" "normalizeUrl s = Inr []"
    | (kept) "trim16 s \<noteq> []" "startsWith (js ''mdbrowse://'') (trim16 s) \<or> matchesHttpScheme (trim16 s)"
             "normalizeUrl s = Inr (trim16 s)"
    | (dot) "trim16 s \<noteq> []" "\<not> freeText (trim16 s)" "normalizeUrl s = Inr (js ''https://'' @ trim16 s)"
    | (search) "freeText (trim16 s)"
             "normalizeUrl s = followedBy (js ''https://duckduckgo.com/?q='') (encodeURIComponent (trim16 s))"
proof (cases "trim16 s = []")
  case True
  hence "normalizeUrl s = Inr []" by (simp add: normalizeUrl_def)
  with True show thesis by (rule empty)
next
  case ne: False
  show thesis
  proof (cases "startsWith (js ''mdbrowse://'') (trim16 s) \<or> matchesHttpScheme (trim16 s)")
    case True
    hence "normalizeUrl s = Inr (trim16 s)" using ne by (auto simp: normalizeUrl_def Let_def)
    with ne True show thesis by (rule kept)
  next
    case ns: False
    show thesis
    proof (cases "includes_str (js ''.'') (trim16 s) \<and> \<not> includes_str (js '' '') (trim16 s)")
      case True
      hence n: "normalizeUrl s = Inr (js ''https://'' @ trim16 s)"
        using ne ns by (simp add: normalizeUrl_def Let_def)
      from True have "\<not> freeText (trim16 s)" by (simp add: freeText_def)
      with ne show thesis using n by (rule dot)
    next
      case False
      hence f: "freeText (trim16 s)" using ne ns by (simp add: freeText_def)
      from False ne ns
      have "normalizeUrl s = followedBy (js ''https://duckduckgo.com/?q='') (encodeURIComponent (trim16 s))"
        by (auto simp: normalizeUrl_def Let_def)
      with f show thesis by (rule search)
    qed
  qed
qed

lemma search_fixed:
  assumes u: "u \<noteq> []" and q: "encodeURIComponent u = Inr q"
  shows "normalizeUrl (js ''https://duckduckgo.com/?q='' @ q) = Inr (js ''https://duckduckgo.com/?q='' @ q)"
proof -
  let ?r = "js ''https://duckduckgo.com/?q='' @ q"
  have e: "?r = js ''https://'' @ (js ''duckduckgo.com/?q='' @ q)" by (simp add: js_def)
  from last_encodeURIComponent[OF q] u have lq: "q \<noteq> []" "\<not> isWhiteSpace (last q)" by auto
  hence "trim16 (js ''https://'' @ (js ''duckduckgo.com/?q='' @ q)) = js ''https://'' @ (js ''duckduckgo.com/?q='' @ q)"
    by (intro trim16_https) simp_all
  hence t: "trim16 ?r = ?r" unfolding e .
  have m: "matchesHttpScheme ?r" unfolding e by (rule matchesHttpScheme_https)
  have ne: "?r \<noteq> []" using lq by simp
  show ?thesis using t ne disjI2[OF m] by (rule normalizeUrl_fixed)
qed

lemma normalizeUrl_bun_idem:
  assumes "normalizeUrl s = Inr r"
  shows "normalizeUrl r = Inr r"
proof (cases s rule: normalizeUrl_cases)
  case empty
  with assms have "r = []" by simp
  thus ?thesis by (simp add: normalizeUrl_def trim16_def)
next
  case kept
  with assms have r: "r = trim16 s" by simp
  show ?thesis unfolding r using kept(1,2) by (intro normalizeUrl_fixed trim16_idem)
next
  case dot
  with assms have r: "r = js ''https://'' @ trim16 s" by simp
  have t: "trim16 r = r" unfolding r using dot(1) trim16_ends(2)[OF dot(1)] by (rule trim16_https)
  have ne: "r \<noteq> []" unfolding r using dot(1) by simp
  have m: "matchesHttpScheme r" unfolding r by (rule matchesHttpScheme_https)
  show ?thesis using t ne disjI2[OF m] by (rule normalizeUrl_fixed)
next
  case search
  with assms obtain q where q: "encodeURIComponent (trim16 s) = Inr q"
      and r: "r = js ''https://duckduckgo.com/?q='' @ q"
    by (cases "encodeURIComponent (trim16 s)") (auto simp: followedBy_def)
  from search(1) have "trim16 s \<noteq> []" by (simp add: freeText_def)
  thus ?thesis unfolding r using q by (rule search_fixed)
qed

lemma normalizeUrl_throws:
  "(\<exists>e. normalizeUrl s = Inl e) \<longleftrightarrow> freeText (trim16 s) \<and> hasLoneSurrogate (trim16 s)"
proof (cases s rule: normalizeUrl_cases)
  case empty thus ?thesis by (simp add: freeText_def)
next
  case kept thus ?thesis by (auto simp: freeText_def)
next
  case dot thus ?thesis by simp
next
  case search
  thus ?thesis using encodeURIComponent_throws[of "trim16 s"] by (simp add: followedBy_Inl)
qed

lemma startsWith_https_fixed: "startsWith (js ''https://'') (js ''https://'' @ u)"
  by (simp add: startsWith_def js_def)

lemma normalizeUrl_shim_fixed:
  assumes "trim16 r = r" "r \<noteq> []"
    "startsWith (js ''mdbrowse://'') r \<or> startsWith (js ''http://'') r \<or> startsWith (js ''https://'') r"
  shows "normalizeUrl_shim r = r"
  using assms by (auto simp: normalizeUrl_shim_def Let_def)

lemma normalizeUrl_shim_cases:
  obtains (empty) "trim16 s = []" "normalizeUrl_shim s = []"
    | (kept) "trim16 s \<noteq> []"
             "startsWith (js ''mdbrowse://'') (trim16 s) \<or> startsWith (js ''http://'') (trim16 s)
              \<or> startsWith (js ''https://'') (trim16 s)"
             "normalizeUrl_shim s = trim16 s"
    | (prefixed) "trim16 s \<noteq> []" "\<not> startsWith (js ''mdbrowse://'') (trim16 s)"
             "\<not> startsWith (js ''http://'') (trim16 s)" "\<not> startsWith (js ''https://'') (trim16 s)"
             "normalizeUrl_shim s = js ''https://'' @ trim16 s"
proof (cases "trim16 s = []")
  case True
  hence "normalizeUrl_shim s = []" by (simp add: normalizeUrl_shim_def)
  with True show thesis by (rule empty)
next
  case ne: False
  show thesis
  proof (cases "startsWith (js ''mdbrowse://'') (trim16 s) \<or> startsWith (js ''http://'') (trim16 s)
              \<or> startsWith (js ''https://'') (trim16 s)")
    case True
    hence "normalizeUrl_shim s = trim16 s" using ne by (auto simp: normalizeUrl_shim_def Let_def)
    with ne True show thesis by (rule kept)
  next
    case False
    hence a: "\<not> startsWith (js ''mdbrowse://'') (trim16 s)" and b: "\<not> startsWith (js ''http://'') (trim16 s)"
      and c: "\<not> startsWith (js ''https://'') (trim16 s)" by simp_all
    hence "normalizeUrl_shim s = js ''https://'' @ trim16 s"
      using ne by (simp add: normalizeUrl_shim_def Let_def)
    with ne a b c show thesis by (rule prefixed)
  qed
qed

lemma https_shim_fixed:
  assumes "trim16 s \<noteq> []"
  shows "normalizeUrl_shim (js ''https://'' @ trim16 s) = js ''https://'' @ trim16 s"
proof (rule normalizeUrl_shim_fixed)
  show "trim16 (js ''https://'' @ trim16 s) = js ''https://'' @ trim16 s"
    using assms trim16_ends(2)[OF assms] by (rule trim16_https)
  show "js ''https://'' @ trim16 s \<noteq> []" using assms by simp
  show "startsWith (js ''mdbrowse://'') (js ''https://'' @ trim16 s)
        \<or> startsWith (js ''http://'') (js ''https://'' @ trim16 s)
        \<or> startsWith (js ''https://'') (js ''https://'' @ trim16 s)"
    using startsWith_https_fixed by blast
qed

lemma normalizeUrl_shim_idem: "normalizeUrl_shim (normalizeUrl_shim s) = normalizeUrl_shim s"
proof (cases s rule: normalizeUrl_shim_cases)
  case empty
  thus ?thesis by (simp add: normalizeUrl_shim_def trim16_def)
next
  case kept
  have "normalizeUrl_shim (trim16 s) = trim16 s"
    using trim16_idem[of s] kept(1,2) by (rule normalizeUrl_shim_fixed)
  thus ?thesis using kept(3) by simp
next
  case prefixed
  thus ?thesis using https_shim_fixed[OF prefixed(1)] by simp
qed

lemma matchesHttpScheme_startsWith:
  "startsWith (js ''http://'') u \<or> startsWith (js ''https://'') u \<Longrightarrow> matchesHttpScheme u"
  unfolding matchesHttpScheme_def startsWith_def js_def
  by (auto simp: take_map lower16_def)

lemma freeText_shim:
  assumes "freeText (trim16 s)"
  shows "normalizeUrl_shim s = js ''https://'' @ trim16 s"
proof (cases s rule: normalizeUrl_shim_cases)
  case empty with assms show ?thesis by (simp add: freeText_def)
next
  case kept
  with assms matchesHttpScheme_startsWith[of "trim16 s"] show ?thesis by (auto simp: freeText_def)
next
  case prefixed thus ?thesis by simp
qed

text \<open>
  C10 as stated fails for the bun process. Free text that contains a surrogate code unit
  without its partner (here \<open>a\<close>, a space and the first half of a surrogate pair) makes
  \<open>encodeURIComponent\<close> throw \<open>URIError\<close>: \<open>normalizeUrl\<close> returns no string, and there
  is nothing a second application could be compared with.
\<close>

theorem normalizeUrl_counterexample:
  "normalizeUrl (js ''a '' @ [0xD83D]) = Inl URIError"
  by (simp add: normalizeUrl_def js_def trim16_def isWhiteSpace_def startsWith_def
        matchesHttpScheme_def lower16_def uriUnreserved_def isLowSurrogate_def
        isHighSurrogate_def followedBy_def)

text \<open>
  C10, amended. Whenever \<open>normalizeUrl\<close> of the bun process returns a string, a second
  application returns that string. It returns a string on every input but free text
  that contains a surrogate code unit without its partner, on which it throws.
  \<open>normalizeUrl\<close> of the toolbar view returns a string on every input, and a second
  application returns that string. Free text, trimmed, is mapped by the bun process to
  \<open>https://duckduckgo.com/?q=\<close> followed by its percent-encoding, and by the toolbar
  view to \<open>https://\<close> followed by the text itself; each of the two results is returned
  unchanged by a second application.
\<close>

theorem normalizeUrl_idempotent_where_it_returns:
  "(\<forall>r. normalizeUrl s = Inr r \<longrightarrow> normalizeUrl r = Inr r)
   \<and> ((\<exists>e. normalizeUrl s = Inl e) \<longleftrightarrow> freeText (trim16 s) \<and> hasLoneSurrogate (trim16 s))
   \<and> normalizeUrl_shim (normalizeUrl_shim s) = normalizeUrl_shim s
   \<and> (freeText (trim16 s) \<longrightarrow>
         (\<forall>q. encodeURIComponent (trim16 s) = Inr q \<longrightarrow>
            normalizeUrl s = Inr (js ''https://duckduckgo.com/?q='' @ q)
            \<and> normalizeUrl (js ''https://duckduckgo.com/?q='' @ q)
                = Inr (js ''https://duckduckgo.com/?q='' @ q))
         \<and> normalizeUrl_shim s = js ''https://'' @ trim16 s
         \<and> normalizeUrl_shim (js ''https://'' @ trim16 s) = js ''https://'' @ trim16 s)"
proof (intro conjI allI impI)
  fix r assume "normalizeUrl s = Inr r"
  thus "normalizeUrl r = Inr r" by (rule normalizeUrl_bun_idem)
next
  show "(\<exists>e. normalizeUrl s = Inl e) \<longleftrightarrow> freeText (trim16 s) \<and> hasLoneSurrogate (trim16 s)"
    by (rule normalizeUrl_throws)
next
  show "normalizeUrl_shim (normalizeUrl_shim s) = normalizeUrl_shim s"
    by (rule normalizeUrl_shim_idem)
next
  fix q assume f: "freeText (trim16 s)" and q: "encodeURIComponent (trim16 s) = Inr q"
  show "normalizeUrl s = Inr (js ''https://duckduckgo.com/?q='' @ q)"
  proof (cases s rule: normalizeUrl_cases)
    case empty with f show ?thesis by (simp add: freeText_def)
  next
    case kept with f show ?thesis by (auto simp: freeText_def)
  next
    case dot with f show ?thesis by simp
  next
    case search thus ?thesis using q by (simp add: followedBy_def)
  qed
next
  fix q assume f: "freeText (trim16 s)" and q: "encodeURIComponent (trim16 s) = Inr q"
  from f have "trim16 s \<noteq> []" by (simp add: freeText_def)
  thus "normalizeUrl (js ''https://duckduckgo.com/?q='' @ q) = Inr (js ''https://duckduckgo.com/?q='' @ q)"
    using q by (rule search_fixed)
next
  assume "freeText (trim16 s)"
  thus "normalizeUrl_shim s = js ''https://'' @ trim16 s" by (rule freeText_shim)
next
  assume "freeText (trim16 s)"
  hence "trim16 s \<noteq> []" by (simp add: freeText_def)
  thus "normalizeUrl_shim (js ''https://'' @ trim16 s) = js ''https://'' @ trim16 s"
    by (rule https_shim_fixed)
qed

theorem normalizeUrl_idempotent_where_it_returns_witness:
  "normalizeUrl (js ''  hello world '') = Inr (js ''https://duckduckgo.com/?q=hello%20world'')
   \<and> normalizeUrl (js ''https://duckduckgo.com/?q=hello%20world'')
       = Inr (js ''https://duckduckgo.com/?q=hello%20world'')
   \<and> normalizeUrl_shim (js ''  hello world '') = js ''https://hello world''
   \<and> normalizeUrl_shim (js ''https://hello world'') = js ''https://hello world''"
proof -
  have t: "trim16 (js ''  hello world '') = js ''hello world''"
    by (simp add: js_def trim16_def isWhiteSpace_def)
  have f: "freeText (js ''hello world'')"
    by (simp add: freeText_def js_def startsWith_def matchesHttpScheme_def lower16_def)
  have q: "encodeURIComponent (js ''hello world'') = Inr (js ''hello%20world'')"
    by (simp add: js_def uriUnreserved_def isLowSurrogate_def isHighSurrogate_def followedBy_def
          percentEncoded_def utf8_def percentByte_def hexDigit_def)
  have a: "js ''https://duckduckgo.com/?q='' @ js ''hello%20world'' = js ''https://duckduckgo.com/?q=hello%20world''"
    by (simp add: js_def)
  have b: "js ''https://'' @ js ''hello world'' = js ''https://hello world''"
    by (simp add: js_def)
  note th = normalizeUrl_idempotent_where_it_returns[of "js ''  hello world ''", unfolded t]
  note i = th[THEN conjunct2, THEN conjunct2, THEN conjunct2, THEN mp, OF f]
  note x = i[THEN conjunct1, THEN spec, THEN mp, OF q, unfolded a]
  note y = i[THEN conjunct2, unfolded b]
  from x y show ?thesis by simp
qed

subsection \<open>URLs of the 8-bit range\<close>

text \<open>
  The session keeps its strings in the 8-bit range. On such a string \<open>normalizeUrl\<close>
  returns, and what it returns is in that range again: nothing is lost on the way from
  the session to \<open>normalizeUrl\<close> and back.
\<close>

lemma js_small: "\<forall>x\<in>set (js u). x < 256"
  by (simp add: js_def)

lemma js_unjs: "\<forall>x\<in>set r. x < 256 \<Longrightarrow> js (unjs r) = r"
  by (induction r) (simp_all add: js_def unjs_def)

lemma set_trim16: "set (trim16 s) \<subseteq> set s"
proof
  fix x assume "x \<in> set (trim16 s)"
  hence "x \<in> set (dropWhile isWhiteSpace (rev (dropWhile isWhiteSpace s)))" by (simp add: trim16_def)
  hence "x \<in> set (rev (dropWhile isWhiteSpace s))" by (rule set_dropWhileD)
  hence "x \<in> set (dropWhile isWhiteSpace s)" by simp
  thus "x \<in> set s" by (rule set_dropWhileD)
qed

lemma hexDigit_small: "n < 16 \<Longrightarrow> hexDigit n < 256"
  by (simp add: hexDigit_def)

lemma percentByte_small:
  assumes "b < 256"
  shows "\<forall>x\<in>set (percentByte b). x < 256"
proof -
  from assms have "b < 16 * 16" by simp
  hence "b div 16 < 16" by (rule less_mult_imp_div_less)
  moreover have "b mod 16 < 16" by simp
  ultimately show ?thesis by (simp add: percentByte_def hexDigit_small)
qed

lemma utf8_small:
  assumes "c < 256"
  shows "\<forall>b\<in>set (utf8 c). b < 256"
proof -
  from assms have "c < 4 * 64" by simp
  hence "c div 64 < 4" by (rule less_mult_imp_div_less)
  hence a: "0xC0 + c div 0x40 < 256" by simp
  have "c mod 64 < 64" by simp
  hence b: "0x80 + c mod 0x40 < 256" by linarith
  show ?thesis using assms a b unfolding utf8_def by (simp del: mod_less_divisor)
qed

lemma percentEncoded_small:
  assumes "c < 256"
  shows "\<forall>x\<in>set (percentEncoded c). x < 256"
proof
  fix x assume "x \<in> set (percentEncoded c)"
  then obtain b where b: "b \<in> set (utf8 c)" "x \<in> set (percentByte b)"
    by (auto simp: percentEncoded_def)
  from utf8_small[OF assms] b(1) have "b < 256" by blast
  from percentByte_small[OF this] b(2) show "x < 256" by blast
qed

lemma encodeURIComponent_small:
  "\<forall>x\<in>set u. x < 256 \<Longrightarrow> \<exists>q. encodeURIComponent u = Inr q \<and> (\<forall>x\<in>set q. x < 256)"
proof (induction u)
  case Nil thus ?case by simp
next
  case (Cons c cs)
  then obtain q where q: "encodeURIComponent cs = Inr q" "\<forall>x\<in>set q. x < 256" by auto
  from Cons.prems have c: "c < 256" by simp
  hence s: "\<not> isLowSurrogate c" "\<not> isHighSurrogate c"
    by (simp_all add: isLowSurrogate_def isHighSurrogate_def)
  show ?case
  proof (cases "uriUnreserved c")
    case True
    thus ?thesis using q c by (simp add: followedBy_def)
  next
    case False
    thus ?thesis using q s percentEncoded_small[OF c] by (auto simp: followedBy_def)
  qed
qed

lemma normalizeUrl_js: "\<exists>n. normalizeUrl (js u) = Inr (js n)"
proof -
  have t: "\<forall>x\<in>set (trim16 (js u)). x < 256" using set_trim16[of "js u"] js_small[of u] by blast
  have "\<exists>r. normalizeUrl (js u) = Inr r \<and> (\<forall>x\<in>set r. x < 256)"
  proof (cases "js u" rule: normalizeUrl_cases)
    case empty thus ?thesis by simp
  next
    case kept thus ?thesis using t by simp
  next
    case dot thus ?thesis using t js_small[of "''https://''"] by auto
  next
    case search
    from encodeURIComponent_small[OF t] obtain q
      where q: "encodeURIComponent (trim16 (js u)) = Inr q" "\<forall>x\<in>set q. x < 256" by blast
    thus ?thesis using search(2) js_small[of "''https://duckduckgo.com/?q=''"]
      by (auto simp: followedBy_def)
  qed
  then obtain r where r: "normalizeUrl (js u) = Inr r" "\<forall>x\<in>set r. x < 256" by blast
  from js_unjs[OF r(2)] r(1) have "normalizeUrl (js u) = Inr (js (unjs r))" by simp
  thus ?thesis by blast
qed

section \<open>Output Normalizer: blank lines, trimming and repeated application\<close>


lemma matchBlankLines_None: "length (takeWhile NL s) < 3 \<Longrightarrow> matchBlankLines p s = None"
  by (simp add: matchBlankLines_def Let_def)

lemma matchBlankLines_Some:
  "3 \<le> length (takeWhile NL s) \<Longrightarrow> matchBlankLines p s = Some (length (takeWhile NL s), [CHR 0x0A, CHR 0x0A])"
  by (simp add: matchBlankLines_def Let_def)

lemma collapse_fixed: "noBlankRun s \<Longrightarrow> replaceAll matchBlankLines p s = s"
proof (induction s arbitrary: p)
  case Nil
  show ?case by (simp add: matchBlankLines_def)
next
  case (Cons c cs)
  from Cons.prems have "matchBlankLines p (c # cs) = None"
    by (intro matchBlankLines_None) simp
  moreover from Cons have "replaceAll matchBlankLines (Some c) cs = cs" by simp
  ultimately show ?case by simp
qed

lemma takeWhile_dropWhile_Nil: "takeWhile P (dropWhile P xs) = []"
  by (induction xs) auto

lemma collapse_step:
  assumes "3 \<le> length (takeWhile NL (c # cs))"
  shows "\<exists>q. replaceAll matchBlankLines p (c # cs) =
           [CHR 0x0A, CHR 0x0A] @ replaceAll matchBlankLines q (dropWhile NL cs)"
proof -
  let ?n = "length (takeWhile NL (c # cs))"
  from assms have c: "c = CHR 0x0A" by (cases "c = CHR 0x0A") auto
  hence n: "?n - 1 = length (takeWhile NL cs)" by simp
  have "drop (?n - 1) cs = dropWhile NL cs" unfolding n by (simp add: dropWhile_eq_drop)
  moreover have "?n \<noteq> 0" using assms by linarith
  ultimately show ?thesis
    using matchBlankLines_Some[OF assms, of p] by (auto simp del: takeWhile.simps)
qed

lemma lead_collapse:
  "length (takeWhile NL (replaceAll matchBlankLines p s)) =
     (if 3 \<le> length (takeWhile NL s) then 2 else length (takeWhile NL s))"
proof (induction s arbitrary: p rule: length_induct)
  case (1 s)
  show ?case
  proof (cases s)
    case Nil thus ?thesis by (simp add: matchBlankLines_def)
  next
    case (Cons c cs)
    show ?thesis
    proof (cases "3 \<le> length (takeWhile NL s)")
      case True
      then obtain q where q: "replaceAll matchBlankLines p s =
           [CHR 0x0A, CHR 0x0A] @ replaceAll matchBlankLines q (dropWhile NL cs)"
        using collapse_step[of c cs p] Cons by blast
      have "length (dropWhile NL cs) < length s" using Cons
        by (simp add: length_dropWhile_le le_imp_less_Suc)
      with 1 have "length (takeWhile NL (replaceAll matchBlankLines q (dropWhile NL cs))) =
        (if 3 \<le> length (takeWhile NL (dropWhile NL cs)) then 2 else length (takeWhile NL (dropWhile NL cs)))"
        by blast
      hence "length (takeWhile NL (replaceAll matchBlankLines q (dropWhile NL cs))) = 0"
        by (simp add: takeWhile_dropWhile_Nil)
      hence "takeWhile NL (replaceAll matchBlankLines q (dropWhile NL cs)) = []" by simp
      thus ?thesis using True q by simp
    next
      case False
      hence m: "matchBlankLines p (c # cs) = None" using Cons by (intro matchBlankLines_None) simp
      have ih: "length (takeWhile NL (replaceAll matchBlankLines (Some c) cs)) =
        (if 3 \<le> length (takeWhile NL cs) then 2 else length (takeWhile NL cs))"
        using 1 Cons by simp
      show ?thesis using False Cons m ih by (auto split: if_splits)
    qed
  qed
qed

lemma collapse_noBlankRun: "noBlankRun (replaceAll matchBlankLines p s)"
proof (induction s arbitrary: p rule: length_induct)
  case (1 s)
  show ?case
  proof (cases s)
    case Nil thus ?thesis by (simp add: matchBlankLines_def)
  next
    case (Cons c cs)
    show ?thesis
    proof (cases "3 \<le> length (takeWhile NL s)")
      case True
      then obtain q where q: "replaceAll matchBlankLines p s =
           [CHR 0x0A, CHR 0x0A] @ replaceAll matchBlankLines q (dropWhile NL cs)"
        using collapse_step[of c cs p] Cons by blast
      let ?r = "replaceAll matchBlankLines q (dropWhile NL cs)"
      have "length (dropWhile NL cs) < length s" using Cons
        by (simp add: length_dropWhile_le le_imp_less_Suc)
      with 1 have g: "noBlankRun ?r" by blast
      have "length (takeWhile NL ?r) = 0"
        using lead_collapse[of q "dropWhile NL cs"] by (simp add: takeWhile_dropWhile_Nil)
      hence "takeWhile NL ?r = []" by simp
      thus ?thesis using q g by simp
    next
      case False
      hence m: "matchBlankLines p (c # cs) = None" using Cons by (intro matchBlankLines_None) simp
      have g: "noBlankRun (replaceAll matchBlankLines (Some c) cs)" using 1 Cons by simp
      have "length (takeWhile NL (c # replaceAll matchBlankLines (Some c) cs)) < 3"
        using False Cons lead_collapse[of "Some c" cs] by (auto split: if_splits)
      thus ?thesis using Cons m g by simp
    qed
  qed
qed

lemma noBlankRun_suffix: "noBlankRun (a @ b) \<Longrightarrow> noBlankRun b"
  by (induction a) auto

lemma lead_prefix_le: "length (takeWhile P a) \<le> length (takeWhile P (a @ b))"
  by (induction a) auto

lemma noBlankRun_prefix: "noBlankRun (a @ b) \<Longrightarrow> noBlankRun a"
proof (induction a)
  case Nil show ?case by simp
next
  case (Cons x a)
  have "length (takeWhile NL (x # a)) \<le> length (takeWhile NL ((x # a) @ b))"
    by (rule lead_prefix_le)
  with Cons show ?case by simp
qed

lemma trim_infix: "\<exists>a c. s = a @ trim s @ c"
proof -
  let ?d = "dropWhile isSpace s"
  have 1: "s = takeWhile isSpace s @ ?d" by simp
  have "rev (dropWhile isSpace (rev ?d)) @ rev (takeWhile isSpace (rev ?d))
          = rev (takeWhile isSpace (rev ?d) @ dropWhile isSpace (rev ?d))"
    by (simp only: rev_append)
  also have "\<dots> = rev (rev ?d)" by (simp only: takeWhile_dropWhile_id)
  finally have 2: "?d = trim s @ rev (takeWhile isSpace (rev ?d))" by (simp add: trim_def)
  from 1 2 have "s = takeWhile isSpace s @ trim s @ rev (takeWhile isSpace (rev ?d))" by simp
  thus ?thesis by blast
qed

lemma noBlankRun_trim: "noBlankRun s \<Longrightarrow> noBlankRun (trim s)"
proof -
  assume g: "noBlankRun s"
  obtain a c where s: "s = a @ trim s @ c" using trim_infix by blast
  from g s have "noBlankRun (a @ trim s @ c)" by simp
  hence "noBlankRun (trim s @ c)" by (rule noBlankRun_suffix)
  thus ?thesis by (rule noBlankRun_prefix)
qed

lemma cleanup_noBlankRun: "noBlankRun (cleanupTurndownOutput x)"
  unfolding cleanupTurndownOutput_def Let_def replace_g_def
  by (intro noBlankRun_trim collapse_noBlankRun)

lemma cleanup_bun_noBlankRun: "noBlankRun (cleanupTurndownOutput_bun x)"
  unfolding cleanupTurndownOutput_bun_def Let_def replace_g_def
  by (intro noBlankRun_trim collapse_noBlankRun)

lemma cleanup_trimmed: "trim (cleanupTurndownOutput x) = cleanupTurndownOutput x"
  unfolding cleanupTurndownOutput_def Let_def by (rule trim_idem)

lemma cleanup_bun_trimmed: "trim (cleanupTurndownOutput_bun x) = cleanupTurndownOutput_bun x"
  unfolding cleanupTurndownOutput_bun_def Let_def by (rule trim_idem)

lemma cleanup_joins_links:
  "cleanupTurndownOutput ''[ a ][x](data:y)(b)'' = ''[ a ](b)''
   \<and> cleanupTurndownOutput ''[ a ](b)'' = ''[a](b)''
   \<and> cleanupTurndownOutput_bun ''[ a ][ ](u)(b)'' = ''[ a ](b)''
   \<and> cleanupTurndownOutput_bun ''[ a ](b)'' = ''[a](b)''"
  by code_simp

text \<open>
  C1 as stated fails: the orphaned-marker pass looks for a line that starts with the
  numeral, and the trim comes after it. On the input \<open>" 1."\<close> the first application
  only trims, and the second removes the marker that the trim moved to the line start.
  (A link that is removed can also join the text around it into a new link, which only
  the next application rewrites: lemma \<open>cleanup_joins_links\<close>.)
\<close>

theorem cleanup_counterexample:
  "cleanupTurndownOutput (cleanupTurndownOutput '' 1.'') \<noteq> cleanupTurndownOutput '' 1.''
   \<and> cleanupTurndownOutput_bun (cleanupTurndownOutput_bun '' 1.'') \<noteq> cleanupTurndownOutput_bun '' 1.''"
  by code_simp

text \<open>
  C1, amended. The output of the Output Normalizer is always unchanged by its last two
  passes, the blank-line collapse and the trim. A second application therefore returns
  the output unchanged whenever the earlier passes (link rewriting, removal of data-URI
  links, removal of orphaned list markers) find nothing to change in it. This holds for
  the normalizer of \<open>src/shared/turndown.ts\<close> and for the copy in the bun process.
\<close>

theorem cleanup_idempotent_on_stable_output:
  "(let y = cleanupTurndownOutput x in
      replace_g matchBlankLines y = y \<and> trim y = y \<and>
      (replace_g (matchLink linkReplacement) y = y \<and> replace_g matchDataImage y = y \<and>
       replace_g matchDataLink y = y \<and> replace_g matchOrphanNumber y = y
       \<longrightarrow> cleanupTurndownOutput y = y))
   \<and> (let y = cleanupTurndownOutput_bun x in
      replace_g matchBlankLines y = y \<and> trim y = y \<and>
      (replace_g (matchLink linkReplacement_bun) y = y \<and> replace_g matchOrphanNumber y = y
       \<longrightarrow> cleanupTurndownOutput_bun y = y))"
proof -
  let ?y = "cleanupTurndownOutput x"
  let ?z = "cleanupTurndownOutput_bun x"
  have cy: "replace_g matchBlankLines ?y = ?y"
    unfolding replace_g_def by (rule collapse_fixed) (rule cleanup_noBlankRun)
  have cz: "replace_g matchBlankLines ?z = ?z"
    unfolding replace_g_def by (rule collapse_fixed) (rule cleanup_bun_noBlankRun)
  have ty: "trim ?y = ?y" by (rule cleanup_trimmed)
  have tz: "trim ?z = ?z" by (rule cleanup_bun_trimmed)
  have iy: "cleanupTurndownOutput ?y = ?y"
    if "replace_g (matchLink linkReplacement) ?y = ?y" "replace_g matchDataImage ?y = ?y"
       "replace_g matchDataLink ?y = ?y" "replace_g matchOrphanNumber ?y = ?y"
  proof -
    have "cleanupTurndownOutput ?y = trim (replace_g matchBlankLines ?y)"
      by (subst cleanupTurndownOutput_def) (simp only: Let_def that)
    thus ?thesis by (simp only: cy ty)
  qed
  have iz: "cleanupTurndownOutput_bun ?z = ?z"
    if "replace_g (matchLink linkReplacement_bun) ?z = ?z" "replace_g matchOrphanNumber ?z = ?z"
  proof -
    have "cleanupTurndownOutput_bun ?z = trim (replace_g matchBlankLines ?z)"
      by (subst cleanupTurndownOutput_bun_def) (simp only: Let_def that)
    thus ?thesis by (simp only: cz tz)
  qed
  show ?thesis unfolding Let_def using cy cz ty tz iy iz by blast
qed

theorem cleanup_idempotent_on_stable_output_witness:
  "(replace_g (matchLink linkReplacement) ''[Example](https://example.com)\<newline>\<newline> text''
      = ''[Example](https://example.com)\<newline>\<newline> text''
    \<and> replace_g matchOrphanNumber ''[Example](https://example.com)\<newline>\<newline> text''
      = ''[Example](https://example.com)\<newline>\<newline> text'')
   \<and> cleanupTurndownOutput (cleanupTurndownOutput ''[ Example\<newline> ](//example.com)\<newline>\<newline>\<newline>\<newline>1.\<newline> text  '')
     = cleanupTurndownOutput ''[ Example\<newline> ](//example.com)\<newline>\<newline>\<newline>\<newline>1.\<newline> text  ''
   \<and> cleanupTurndownOutput_bun (cleanupTurndownOutput_bun ''[ Example\<newline> ](//example.com)\<newline>\<newline>\<newline>\<newline>1.\<newline> text  '')
     = cleanupTurndownOutput_bun ''[ Example\<newline> ](//example.com)\<newline>\<newline>\<newline>\<newline>1.\<newline> text  ''"
proof -
  let ?x = "''[ Example\<newline> ](//example.com)\<newline>\<newline>\<newline>\<newline>1.\<newline> text  ''"
  let ?y = "''[Example](https://example.com)\<newline>\<newline> text''"
  let ?z = "''[Example](//example.com)\<newline>\<newline> text''"
  have y: "cleanupTurndownOutput ?x = ?y" by code_simp
  have z: "cleanupTurndownOutput_bun ?x = ?z" by code_simp
  have hy: "replace_g (matchLink linkReplacement) ?y = ?y \<and> replace_g matchDataImage ?y = ?y \<and>
       replace_g matchDataLink ?y = ?y \<and> replace_g matchOrphanNumber ?y = ?y" by code_simp
  have hz: "replace_g (matchLink linkReplacement_bun) ?z = ?z \<and> replace_g matchOrphanNumber ?z = ?z"
    by code_simp
  from cleanup_idempotent_on_stable_output[of ?x] show ?thesis
    unfolding Let_def y z using hy hz by blast
qed

section \<open>Converter rules: empty anchors and layout tables\<close>

lemma trim_empty_iff: "trim s = [] \<longleftrightarrow> (\<forall>c\<in>set s. isSpace c)"
proof -
  let ?d = "dropWhile isSpace s"
  have "trim s = [] \<longleftrightarrow> (\<forall>x\<in>set ?d. isSpace x)"
    by (simp add: trim_def dropWhile_eq_Nil_conv)
  also have "\<dots> \<longleftrightarrow> ?d = []"
  proof
    assume a: "\<forall>x\<in>set ?d. isSpace x"
    show "?d = []"
    proof (rule ccontr)
      assume ne: "?d \<noteq> []"
      hence "\<not> isSpace (hd ?d)" by (rule hd_dropWhile)
      moreover from ne have "hd ?d \<in> set ?d" by (rule hd_in_set)
      ultimately show False using a by blast
    qed
  qed (auto dest: set_dropWhileD)
  also have "\<dots> \<longleftrightarrow> (\<forall>c\<in>set s. isSpace c)" by (simp add: dropWhile_eq_Nil_conv)
  finally show ?thesis .
qed

lemma collapseSpaces_all_space:
  "(\<forall>c\<in>set (collapseSpaces s). isSpace c) \<longleftrightarrow> (\<forall>c\<in>set s. isSpace c)"
proof (induction s rule: collapseSpaces.induct)
  case 1 show ?case by simp
next
  case (2 c cs)
  show ?case
  proof (cases "isSpace c")
    case True
    have "(\<forall>x\<in>set (dropWhile isSpace cs). isSpace x) \<longleftrightarrow> (\<forall>x\<in>set cs. isSpace x)"
    proof
      assume a: "\<forall>x\<in>set (dropWhile isSpace cs). isSpace x"
      have "set cs = set (takeWhile isSpace cs) \<union> set (dropWhile isSpace cs)"
        by (metis set_append takeWhile_dropWhile_id)
      thus "\<forall>x\<in>set cs. isSpace x" using a by (auto dest: set_takeWhileD)
    next
      assume "\<forall>x\<in>set cs. isSpace x"
      thus "\<forall>x\<in>set (dropWhile isSpace cs). isSpace x" by (auto dest: set_dropWhileD)
    qed
    with True 2 show ?thesis by (simp add: isSpace_def)
  next
    case False
    with 2 show ?thesis by auto
  qed
qed

lemma normalizeWhitespace_empty_iff: "normalizeWhitespace s = [] \<longleftrightarrow> trim s = []"
  by (simp add: normalizeWhitespace_def trim_empty_iff collapseSpaces_all_space)

text \<open>
  C2 as stated fails in two places. The rule of \<open>src/shared/turndown.ts\<close> emits the
  label alone when the \<open>href\<close> attribute is present but empty after trimming, so an
  anchor \<open><a href=""></a>\<close> comes out as the empty string. The converters built in
  the bun process and in the toolbar view register \<open>removeBlankLinks\<close> instead, which
  drops every anchor without visible text, whatever label sources it has.
\<close>

theorem blank_link_counterexample:
  "rfilter preserveBlankLinks (Element ''A'' [(''href'', '''')] [])
   \<and> replacement preserveBlankLinks [] (Element ''A'' [(''href'', '''')] []) = []
   \<and> rfilter removeBlankLinks (Element ''A'' [(''href'', ''https://example.com''), (''aria-label'', ''Example'')] [])
   \<and> replacement removeBlankLinks []
        (Element ''A'' [(''href'', ''https://example.com''), (''aria-label'', ''Example'')] []) = []"
  by code_simp

text \<open>
  C2, amended. For an anchor that has an \<open>href\<close> attribute and whose text is empty
  after whitespace normalization, the rule \<open>preserveBlankLinks\<close> of
  \<open>src/shared/turndown.ts\<close> applies, and it emits \<open>[label](href)\<close> with the trimmed
  \<open>href\<close>, where the label is the first non-empty one of: the normalized
  \<open>aria-label\<close>, the normalized \<open>title\<close>, the normalized \<open>alt\<close> of the first
  contained \<open>img[alt]\<close>, the trimmed \<open>href\<close>. When the trimmed \<open>href\<close> is empty it
  emits the label alone. On the same anchor the rule \<open>removeBlankLinks\<close> of the bun
  process and the toolbar view applies too, and emits the empty string.
\<close>

theorem blank_link_label:
  assumes a: "nodeName n = ''A''"
      and h: "getAttribute n ''href'' = Some href"
      and e: "normalizeWhitespace (textContent n) = []"
  shows "rfilter preserveBlankLinks n
    \<and> replacement preserveBlankLinks inner n =
        (let aria = normalizeWhitespace (attributeOrEmpty n ''aria-label'');
             ttl = normalizeWhitespace (attributeOrEmpty n ''title'');
             alt = normalizeWhitespace
                     (case querySelector_img_alt n of None \<Rightarrow> [] | Some img \<Rightarrow> attributeOrEmpty img ''alt'');
             label = (if aria \<noteq> [] then aria else if ttl \<noteq> [] then ttl
                      else if alt \<noteq> [] then alt else trim href)
         in if trim href = [] then label else ''['' @ label @ '']('' @ trim href @ '')'')
    \<and> rfilter removeBlankLinks n
    \<and> replacement removeBlankLinks inner n = []"
proof -
  have f: "rfilter preserveBlankLinks n" using a h e by (simp add: preserveBlankLinks_def)
  have t: "trim (textContent n) = []" using e by (simp add: normalizeWhitespace_empty_iff)
  have g: "rfilter removeBlankLinks n" using a h t by (simp add: removeBlankLinks_def)
  have r: "replacement removeBlankLinks inner n = []" by (simp add: removeBlankLinks_def)
  have hr: "attributeOrEmpty n ''href'' = href" using h by (simp add: attributeOrEmpty_def)
  have p: "replacement preserveBlankLinks inner n =
        (let aria = normalizeWhitespace (attributeOrEmpty n ''aria-label'');
             ttl = normalizeWhitespace (attributeOrEmpty n ''title'');
             alt = normalizeWhitespace
                     (case querySelector_img_alt n of None \<Rightarrow> [] | Some img \<Rightarrow> attributeOrEmpty img ''alt'');
             label = (if aria \<noteq> [] then aria else if ttl \<noteq> [] then ttl
                      else if alt \<noteq> [] then alt else trim href)
         in if trim href = [] then label else ''['' @ label @ '']('' @ trim href @ '')'')"
    using e by (simp add: preserveBlankLinks_def getLinkLabel_def Let_def hr)
  show ?thesis using f p g r by blast
qed

theorem blank_link_label_witness:
  "getAttribute (Element ''A'' [(''href'', ''/samples'')]
        [Element ''IMG'' [(''src'', ''logo.png''), (''alt'', ''needle tools logo'')] []]) ''href''
     = Some ''/samples''
   \<and> normalizeWhitespace (textContent (Element ''A'' [(''href'', ''/samples'')]
        [Element ''IMG'' [(''src'', ''logo.png''), (''alt'', ''needle tools logo'')] []])) = []
   \<and> replacement preserveBlankLinks []
     (Element ''A'' [(''href'', ''/samples'')]
        [Element ''IMG'' [(''src'', ''logo.png''), (''alt'', ''needle tools logo'')] []])
   = ''[needle tools logo](/samples)''"
proof -
  let ?n = "Element ''A'' [(''href'', ''/samples'')]
        [Element ''IMG'' [(''src'', ''logo.png''), (''alt'', ''needle tools logo'')] []]"
  have a: "nodeName ?n = ''A''" by simp
  have h: "getAttribute ?n ''href'' = Some ''/samples''" by simp
  have e: "normalizeWhitespace (textContent ?n) = []" by code_simp
  have v: "(let aria = normalizeWhitespace (attributeOrEmpty ?n ''aria-label'');
             ttl = normalizeWhitespace (attributeOrEmpty ?n ''title'');
             alt = normalizeWhitespace
                     (case querySelector_img_alt ?n of None \<Rightarrow> [] | Some img \<Rightarrow> attributeOrEmpty img ''alt'');
             label = (if aria \<noteq> [] then aria else if ttl \<noteq> [] then ttl
                      else if alt \<noteq> [] then alt else trim ''/samples'')
         in if trim ''/samples'' = [] then label else ''['' @ label @ '']('' @ trim ''/samples'' @ '')'')
        = ''[needle tools logo](/samples)''" by code_simp
  from blank_link_label[OF a h e, of "[]"] show ?thesis unfolding v using h e by blast
qed


lemma findIndex_Some: "findIndex P xs = Some i \<Longrightarrow> i < length xs \<and> P (xs ! i)"
proof (induction xs arbitrary: i)
  case Nil thus ?case by simp
next
  case (Cons x xs)
  show ?case
  proof (cases "P x")
    case True with Cons.prems show ?thesis by simp
  next
    case False
    with Cons.prems obtain j where j: "findIndex P xs = Some j" "i = Suc j" by auto
    with Cons.IH[OF j(1)] show ?thesis by simp
  qed
qed

lemma findIndex_None: "findIndex P xs = None \<longleftrightarrow> (\<forall>x\<in>set xs. \<not> P x)"
  by (induction xs) auto





section \<open>The history cursor\<close>

lemma historyOk_storeContent: "historyOk (storeContent c t) = historyOk t"
  by (simp add: historyOk_def storeContent_def)

lemma historyOk_truncateForward: "historyOk t \<Longrightarrow> historyOk (truncateForward t)"
  by (auto simp: historyOk_def truncateForward_def slice0_def)

lemma historyOk_pushHistory: "historyOk (pushHistory u t)"
  by (simp add: historyOk_def pushHistory_def)

lemma historyOk_commitHistory: "historyOk (commitHistory u t)"
  by (simp add: historyOk_def commitHistory_def Let_def)

lemma historyOk_navigate_begin: "historyOk (navigate_begin n t) = historyOk t"
  by (simp add: historyOk_def navigate_begin_def)

lemma historyOk_navigate_resume: "historyOk t \<Longrightarrow> historyOk (navigate_resume fetched t)"
  by (cases fetched) (simp_all add: navigate_resume_def historyOk_commitHistory, simp add: historyOk_def)

lemma historyOk_replay_back:
  "historyOk t \<Longrightarrow> \<not> historyIndex t \<le> 0 \<Longrightarrow> historyOk (replay_begin (- 1) t)"
  by (auto simp: historyOk_def replay_begin_def Let_def)

lemma historyOk_replay_forward:
  "historyOk t \<Longrightarrow> \<not> historyIndex t \<ge> int (length (history t)) - 1 \<Longrightarrow> historyOk (replay_begin 1 t)"
  by (auto simp: historyOk_def replay_begin_def Let_def)

lemma historyOk_replay_resume: "historyOk t \<Longrightarrow> historyOk (replay_resume fetched t)"
  by (cases fetched) (simp_all add: replay_resume_def historyOk_storeContent)

lemma historyOk_reload_resume: "historyOk t \<Longrightarrow> historyOk (reload_resume fetched t)"
  by (cases fetched) (simp_all add: reload_resume_def historyOk_def)

lemma historyOk_webviewNavigated: "historyOk t \<Longrightarrow> historyOk (webviewNavigated hostname u t)"
proof -
  assume ok: "historyOk t"
  let ?t0 = "t\<lparr>tab_url := u\<rparr>"
  have ok0: "historyOk ?t0" using ok by (simp add: historyOk_def)
  have p: "historyOk (pushHistory u (truncateForward ?t0))" by (rule historyOk_pushHistory)
  have b: "historyIndex ?t0 > 0 \<Longrightarrow> historyOk (?t0\<lparr>historyIndex := historyIndex ?t0 - 1\<rparr>)"
    using ok0 by (auto simp: historyOk_def)
  have f: "historyIndex ?t0 < int (length (history ?t0)) - 1
      \<Longrightarrow> historyOk (?t0\<lparr>historyIndex := historyIndex ?t0 + 1\<rparr>)"
    using ok0 by (auto simp: historyOk_def)
  have t: "\<And>x ttl. historyOk x \<Longrightarrow> historyOk (x\<lparr>tab_title := ttl\<rparr>)" by (simp add: historyOk_def)
  show ?thesis
    unfolding webviewNavigated_def Let_def
    apply (rule t)
    using ok0 p b f by (auto split: if_splits)
qed

lemma historyOk_newTab: "historyOk (newTab i ttl)"
  by (simp add: historyOk_def newTab_def)

subsection \<open>Requests of the bun process keep the cursor inside the history\<close>

lemma find_findIndex:
  "find P xs = (case findIndex P xs of None \<Rightarrow> None | Some i \<Rightarrow> Some (xs ! i))"
  by (induction xs) (auto split: option.splits)

lemma activeIndex_Some:
  "activeIndex s = Some i \<Longrightarrow> i < length (tabs s) \<and> tab_id (tabs s ! i) = activeTabId s"
  unfolding activeIndex_def by (drule findIndex_Some) simp

lemma getActiveTab_activeIndex:
  "getActiveTab s = (case activeIndex s of None \<Rightarrow> None | Some i \<Rightarrow> Some (tabs s ! i))"
  by (simp add: getActiveTab_def activeIndex_def find_findIndex)

lemma updateTabAt_ok:
  assumes "\<forall>t\<in>set (tabs s). historyOk t" "i < length (tabs s)" "historyOk (f (tabs s ! i))"
  shows "\<forall>t\<in>set (tabs (updateTabAt i f s)). historyOk t"
proof
  fix t assume "t \<in> set (tabs (updateTabAt i f s))"
  hence "t \<in> insert (f (tabs s ! i)) (set (tabs s))"
    using set_update_subset_insert[of "tabs s" i "f (tabs s ! i)"] by (auto simp: updateTabAt_def)
  thus "historyOk t" using assms by auto
qed

lemma unjs_js: "unjs (js n) = n"
  by (simp add: unjs_def js_def comp_def)

lemma navigate_cases:
  obtains (rejected) "navigate u fetched s = (Rejected, s)"
    | (failure) "navigate u fetched s = (Failure, s)"
    | (normalized) n where "n \<noteq> []"
        "navigate u fetched s =
           (let (i, s1) =
                  (case activeIndex s of
                     Some i \<Rightarrow> (i, s)
                   | None \<Rightarrow>
                       (length (tabs s),
                        s\<lparr>tabs := tabs s @ [newTab (nextTabId s) []],
                          activeTabId := nextTabId s, nextTabId := nextTabId s + 1\<rparr>))
            in (if fetched = None then Failure else Success,
                updateTabAt i (\<lambda>t. navigate_resume fetched (navigate_begin n t)) s1))"
proof (cases "normalizeUrl (js u)")
  case (Inl e)
  hence "navigate u fetched s = (Rejected, s)" by (simp add: navigate_def)
  thus thesis by (rule rejected)
next
  case (Inr r)
  show thesis
  proof (cases "unjs r = []")
    case True
    with Inr have "navigate u fetched s = (Failure, s)" by (simp add: navigate_def)
    thus thesis by (rule failure)
  next
    case False
    thus thesis using Inr by (intro normalized[of "unjs r"]) (simp_all add: navigate_def)
  qed
qed

lemma navigate_returned:
  assumes "normalizeUrl (js u) = Inr (js n)" "n \<noteq> []"
  shows "navigate u fetched s =
           (let (i, s1) =
                  (case activeIndex s of
                     Some i \<Rightarrow> (i, s)
                   | None \<Rightarrow>
                       (length (tabs s),
                        s\<lparr>tabs := tabs s @ [newTab (nextTabId s) []],
                          activeTabId := nextTabId s, nextTabId := nextTabId s + 1\<rparr>))
            in (if fetched = None then Failure else Success,
                updateTabAt i (\<lambda>t. navigate_resume fetched (navigate_begin n t)) s1))"
  using assms by (simp add: navigate_def unjs_js)

lemma navigate_ok:
  assumes "\<forall>t\<in>set (tabs s). historyOk t"
  shows "\<forall>t\<in>set (tabs (snd (navigate u fetched s))). historyOk t"
proof (cases u fetched s rule: navigate_cases)
  case rejected thus ?thesis using assms by simp
next
  case failure thus ?thesis using assms by simp
next
  case (normalized n)
  let ?f = "\<lambda>t. navigate_resume fetched (navigate_begin n t)"
  have f: "\<And>t. historyOk t \<Longrightarrow> historyOk (?f t)"
    by (simp add: historyOk_navigate_resume historyOk_navigate_begin)
  show ?thesis
  proof (cases "activeIndex s")
    case (Some i)
    hence i: "i < length (tabs s)" using activeIndex_Some by blast
    hence "historyOk (?f (tabs s ! i))" using assms f by simp
    hence "\<forall>t\<in>set (tabs (updateTabAt i ?f s)). historyOk t"
      using assms i by (intro updateTabAt_ok)
    thus ?thesis using normalized(2) Some by (simp add: Let_def)
  next
    case None
    let ?s1 = "s\<lparr>tabs := tabs s @ [newTab (nextTabId s) []],
                 activeTabId := nextTabId s, nextTabId := nextTabId s + 1\<rparr>"
    have a: "\<forall>t\<in>set (tabs ?s1). historyOk t" using assms by (auto simp: historyOk_newTab)
    have "historyOk (?f (tabs ?s1 ! length (tabs s)))" by (simp add: f historyOk_newTab)
    hence "\<forall>t\<in>set (tabs (updateTabAt (length (tabs s)) ?f ?s1)). historyOk t"
      using a by (intro updateTabAt_ok) simp_all
    thus ?thesis using normalized(2) None by (simp add: Let_def)
  qed
qed

lemma active_update_ok:
  assumes "\<forall>t\<in>set (tabs s). historyOk t" "activeIndex s = Some i"
      and "\<And>t. historyOk t \<Longrightarrow> historyOk (f t)"
  shows "\<forall>t\<in>set (tabs (updateTabAt i f s)). historyOk t"
proof -
  have i: "i < length (tabs s)" using assms(2) activeIndex_Some by blast
  hence "historyOk (f (tabs s ! i))" using assms(1,3) by simp
  thus ?thesis using assms(1) i by (intro updateTabAt_ok)
qed

lemma reload_ok:
  assumes a: "\<forall>t\<in>set (tabs s). historyOk t"
  shows "\<forall>t\<in>set (tabs (snd (reload fetched s))). historyOk t"
proof (cases "activeIndex s")
  case None thus ?thesis using a by (simp add: reload_def)
next
  case (Some i)
  have "\<And>t. historyOk t \<Longrightarrow> historyOk (reload_resume fetched (t\<lparr>isLoading := True\<rparr>))"
    by (rule historyOk_reload_resume) (simp add: historyOk_def)
  from active_update_ok[OF a Some this] a Some show ?thesis by (simp add: reload_def)
qed

lemma stopLoading_ok:
  assumes a: "\<forall>t\<in>set (tabs s). historyOk t"
  shows "\<forall>t\<in>set (tabs (snd (stopLoading s))). historyOk t"
proof (cases "activeIndex s")
  case None thus ?thesis using a by (simp add: stopLoading_def)
next
  case (Some i)
  have "\<And>t. historyOk t \<Longrightarrow> historyOk (t\<lparr>isLoading := False\<rparr>)" by (simp add: historyOk_def)
  from active_update_ok[OF a Some this] Some show ?thesis by (simp add: stopLoading_def)
qed

lemma onWebviewNavigated_ok:
  assumes a: "\<forall>t\<in>set (tabs s). historyOk t"
  shows "\<forall>t\<in>set (tabs (snd (onWebviewNavigated hostname u s))). historyOk t"
proof (cases "activeIndex s")
  case None thus ?thesis using a by (simp add: onWebviewNavigated_def)
next
  case (Some i)
  from active_update_ok[OF a Some historyOk_webviewNavigated] Some
  show ?thesis by (simp add: onWebviewNavigated_def)
qed

lemma createTab_ok:
  assumes a: "\<forall>t\<in>set (tabs s). historyOk t"
  shows "\<forall>t\<in>set (tabs (snd (createTab u fetched s))). historyOk t"
proof -
  let ?s1 = "s\<lparr>tabs := tabs s @ [newTab (nextTabId s) ''New Tab''],
               activeTabId := tab_id (newTab (nextTabId s) ''New Tab''),
               nextTabId := nextTabId s + 1\<rparr>"
  have 1: "\<forall>t\<in>set (tabs ?s1). historyOk t" using a by (auto simp: historyOk_newTab)
  show ?thesis using 1 navigate_ok[OF 1]
    by (auto simp: createTab_def Let_def split: option.splits)
qed

lemma set_remove_nth: "set (take i xs @ drop (Suc i) xs) \<subseteq> set xs"
  by (auto dest: in_set_takeD in_set_dropD)

lemma closeTab_ok:
  assumes a: "\<forall>t\<in>set (tabs s). historyOk t"
  shows "\<forall>t\<in>set (tabs (snd (closeTab tabId s))). historyOk t"
proof (cases "findIndex (\<lambda>t. tab_id t = tabId) (tabs s)")
  case None thus ?thesis using a by (simp add: closeTab_def)
next
  case (Some index)
  have "\<forall>t\<in>set (take index (tabs s) @ drop (Suc index) (tabs s)). historyOk t"
    using a set_remove_nth[of index "tabs s"] by blast
  thus ?thesis using Some by (auto simp: closeTab_def Let_def historyOk_newTab)
qed

lemma handle_ok:
  assumes a: "\<forall>t\<in>set (tabs s). historyOk t"
  shows "\<forall>t\<in>set (tabs (snd (handle hostname r s))). historyOk t"
proof (cases r)
  case (Navigate u fetched)
  thus ?thesis using navigate_ok[OF a] by simp
next
  case (GoBack fetched)
  show ?thesis
  proof (cases "activeIndex s")
    case None thus ?thesis using a GoBack by (simp add: goBack_def)
  next
    case (Some i)
    hence i: "i < length (tabs s)" using activeIndex_Some by blast
    show ?thesis
    proof (cases "historyIndex (tabs s ! i) \<le> 0")
      case True thus ?thesis using a GoBack Some by (simp add: goBack_def)
    next
      case False
      have "historyOk (replay_resume fetched (replay_begin (- 1) (tabs s ! i)))"
        using a i False by (intro historyOk_replay_resume historyOk_replay_back) simp_all
      hence "\<forall>t\<in>set (tabs (updateTabAt i (\<lambda>t. replay_resume fetched (replay_begin (- 1) t)) s)). historyOk t"
        using a i by (intro updateTabAt_ok)
      thus ?thesis using GoBack Some False by (simp add: goBack_def)
    qed
  qed
next
  case (GoForward fetched)
  show ?thesis
  proof (cases "activeIndex s")
    case None thus ?thesis using a GoForward by (simp add: goForward_def)
  next
    case (Some i)
    hence i: "i < length (tabs s)" using activeIndex_Some by blast
    show ?thesis
    proof (cases "historyIndex (tabs s ! i) \<ge> int (length (history (tabs s ! i))) - 1")
      case True thus ?thesis using a GoForward Some by (simp add: goForward_def)
    next
      case False
      have "historyOk (replay_resume fetched (replay_begin 1 (tabs s ! i)))"
        using a i False by (intro historyOk_replay_resume historyOk_replay_forward) simp_all
      hence "\<forall>t\<in>set (tabs (updateTabAt i (\<lambda>t. replay_resume fetched (replay_begin 1 t)) s)). historyOk t"
        using a i by (intro updateTabAt_ok)
      thus ?thesis using GoForward Some False by (simp add: goForward_def)
    qed
  qed
next
  case (Reload fetched)
  thus ?thesis using reload_ok[OF a] by simp
next
  case StopLoading
  thus ?thesis using stopLoading_ok[OF a] by simp
next
  case (CreateTab u fetched)
  thus ?thesis using createTab_ok[OF a] by simp
next
  case (CloseTab tabId)
  thus ?thesis using closeTab_ok[OF a] by simp
next
  case (SwitchTab tabId)
  thus ?thesis using a by (auto simp: switchTab_def split: option.splits)
next
  case (RefetchForViewMode fetched)
  thus ?thesis using reload_ok[OF a] by simp
next
  case (OnWebviewNavigated u)
  thus ?thesis using onWebviewNavigated_ok[OF a] by simp
qed

lemma run_ok:
  "\<forall>t\<in>set (tabs s). historyOk t \<Longrightarrow> \<forall>t\<in>set (tabs (run hostname reqs s)). historyOk t"
proof (induction reqs arbitrary: s)
  case Nil thus ?case by simp
next
  case (Cons r rs)
  from handle_ok[OF Cons.prems] have "\<forall>t\<in>set (tabs (snd (handle hostname r s))). historyOk t" .
  from Cons.IH[OF this] show ?case by simp
qed

lemma getActiveTab_mem: "getActiveTab s = Some t \<Longrightarrow> t \<in> set (tabs s)"
  unfolding getActiveTab_def by (induction "tabs s" arbitrary: s) (auto simp: find_Some_iff)

text \<open>
  C4. After any finite sequence of requests to the bun process, starting from its
  initial session (\<open>navigate\<close>, \<open>goBack\<close> and \<open>goForward\<close>, and the other requests
  too, tabs being created and closed on the way), and whatever the fetches resolve to,
  every tab has \<open>-1 \<le> historyIndex < length history\<close>, with \<open>historyIndex = -1\<close>
  exactly when the history is empty; and \<open>getNavigationState\<close> reports \<open>canGoBack\<close>
  exactly when the active tab has \<open>historyIndex > 0\<close> and \<open>canGoForward\<close> exactly when
  it has \<open>historyIndex < length history - 1\<close>. Lemma \<open>run_ok\<close> is the same for any
  starting session whose tabs are well formed; the lemmas before it show that each half
  of a suspended handler keeps a tab well formed, so that handlers overlapping on a tab
  do not break it either.
\<close>

theorem history_cursor_invariant:
  "let s = run hostname reqs initialSession in
     (\<forall>t\<in>set (tabs s).
        - 1 \<le> historyIndex t \<and> historyIndex t < int (length (history t))
        \<and> ((historyIndex t = - 1) = (history t = [])))
     \<and> (case getActiveTab s of
          None \<Rightarrow> \<not> canGoBack (getNavigationState s) \<and> \<not> canGoForward (getNavigationState s)
        | Some t \<Rightarrow>
            canGoBack (getNavigationState s) = (historyIndex t > 0)
            \<and> canGoForward (getNavigationState s) = (historyIndex t < int (length (history t)) - 1))"
proof -
  have "\<forall>t\<in>set (tabs initialSession). historyOk t"
    by (simp add: initialSession_def historyOk_newTab)
  hence "\<forall>t\<in>set (tabs (run hostname reqs initialSession)). historyOk t" by (rule run_ok)
  thus ?thesis
    unfolding Let_def historyOk_def
    by (auto simp: getNavigationState_def split: option.splits)
qed

theorem history_cursor_invariant_witness:
  "getActiveTab (run Inr
       [Navigate ''a.example'' (Some \<lparr>url = ''https://a.example/'', markdown = ''a'', rawHtml = [], title = ''A'', wasMarkdown = True\<rparr>),
        Navigate ''b.example'' (Some \<lparr>url = ''https://b.example/'', markdown = ''b'', rawHtml = [], title = ''B'', wasMarkdown = True\<rparr>),
        GoBack (Some \<lparr>url = ''https://a.example/'', markdown = ''a'', rawHtml = [], title = ''A'', wasMarkdown = True\<rparr>)]
       initialSession)
     = Some \<lparr>tab_id = 1, tab_url = ''https://a.example/'', tab_title = ''A'',
              history = [''https://a.example/'', ''https://b.example/''], historyIndex = 0,
              isLoading = False,
              content = Some \<lparr>url = ''https://a.example/'', markdown = ''a'', rawHtml = [], title = ''A'', wasMarkdown = True\<rparr>\<rparr>
   \<and> \<not> canGoBack (getNavigationState (run Inr
       [Navigate ''a.example'' (Some \<lparr>url = ''https://a.example/'', markdown = ''a'', rawHtml = [], title = ''A'', wasMarkdown = True\<rparr>),
        Navigate ''b.example'' (Some \<lparr>url = ''https://b.example/'', markdown = ''b'', rawHtml = [], title = ''B'', wasMarkdown = True\<rparr>),
        GoBack (Some \<lparr>url = ''https://a.example/'', markdown = ''a'', rawHtml = [], title = ''A'', wasMarkdown = True\<rparr>)]
       initialSession))
   \<and> canGoForward (getNavigationState (run Inr
       [Navigate ''a.example'' (Some \<lparr>url = ''https://a.example/'', markdown = ''a'', rawHtml = [], title = ''A'', wasMarkdown = True\<rparr>),
        Navigate ''b.example'' (Some \<lparr>url = ''https://b.example/'', markdown = ''b'', rawHtml = [], title = ''B'', wasMarkdown = True\<rparr>),
        GoBack (Some \<lparr>url = ''https://a.example/'', markdown = ''a'', rawHtml = [], title = ''A'', wasMarkdown = True\<rparr>)]
       initialSession))"
proof -
  let ?cA = "\<lparr>url = ''https://a.example/'', markdown = ''a'', rawHtml = [], title = ''A'', wasMarkdown = True\<rparr>"
  let ?cB = "\<lparr>url = ''https://b.example/'', markdown = ''b'', rawHtml = [], title = ''B'', wasMarkdown = True\<rparr>"
  let ?reqs = "[Navigate ''a.example'' (Some ?cA), Navigate ''b.example'' (Some ?cB), GoBack (Some ?cA)]"
  let ?s = "run Inr ?reqs initialSession"
  let ?t = "\<lparr>tab_id = 1, tab_url = ''https://a.example/'', tab_title = ''A'',
              history = [''https://a.example/'', ''https://b.example/''], historyIndex = 0,
              isLoading = False, content = Some ?cA\<rparr>"
  let ?s1 = "\<lparr>tabs = [\<lparr>tab_id = 1, tab_url = ''https://a.example/'', tab_title = ''A'',
                history = [''https://a.example/''], historyIndex = 0, isLoading = False,
                content = Some ?cA\<rparr>],
              activeTabId = 1, nextTabId = 2\<rparr>"
  let ?s2 = "\<lparr>tabs = [\<lparr>tab_id = 1, tab_url = ''https://b.example/'', tab_title = ''B'',
                history = [''https://a.example/'', ''https://b.example/''], historyIndex = 1,
                isLoading = False, content = Some ?cB\<rparr>],
              activeTabId = 1, nextTabId = 2\<rparr>"
  have na: "normalizeUrl (js ''a.example'') = Inr (js ''https://a.example'')"
    by (simp add: normalizeUrl_def js_def trim16_def isWhiteSpace_def startsWith_def
          matchesHttpScheme_def lower16_def)
  have nb: "normalizeUrl (js ''b.example'') = Inr (js ''https://b.example'')"
    by (simp add: normalizeUrl_def js_def trim16_def isWhiteSpace_def startsWith_def
          matchesHttpScheme_def lower16_def)
  have 1: "navigate ''a.example'' (Some ?cA) initialSession = (Success, ?s1)"
    unfolding navigate_returned[OF na list.distinct(2)] by code_simp
  have 2: "navigate ''b.example'' (Some ?cB) ?s1 = (Success, ?s2)"
    unfolding navigate_returned[OF nb list.distinct(2)] by code_simp
  have 3: "getActiveTab (snd (goBack (Some ?cA) ?s2)) = Some ?t" by code_simp
  have g: "getActiveTab ?s = Some ?t" by (simp add: 1 2 3)
  from history_cursor_invariant[of Inr ?reqs]
  have "canGoBack (getNavigationState ?s) = (historyIndex ?t > 0)
        \<and> canGoForward (getNavigationState ?s) = (historyIndex ?t < int (length (history ?t)) - 1)"
    unfolding Let_def g by simp
  thus ?thesis using g by simp
qed

section \<open>Navigations in flight\<close>

text \<open>
  C3 as stated fails: the part of \<open>navigate\<close> that runs when its fetch resolves
  compares nothing with the tab's current target. With \<open>navigate(A)\<close> and then
  \<open>navigate(B)\<close> begun on a new tab, B's fetch resolving first and A's last, the tab ends
  with A's URL and A's document, and with A appended to the history after B.
\<close>

theorem superseded_navigation_counterexample:
  "tab_url (navigate_resume (Some \<lparr>url = ''https://a.example/'', markdown = ''a'', rawHtml = [], title = ''A'', wasMarkdown = True\<rparr>)
     (navigate_resume (Some \<lparr>url = ''https://b.example/'', markdown = ''b'', rawHtml = [], title = ''B'', wasMarkdown = True\<rparr>)
        (navigate_begin ''https://b.example/'' (navigate_begin ''https://a.example/'' (newTab 1 ''New Tab'')))))
     = ''https://a.example/''
   \<and> content (navigate_resume (Some \<lparr>url = ''https://a.example/'', markdown = ''a'', rawHtml = [], title = ''A'', wasMarkdown = True\<rparr>)
     (navigate_resume (Some \<lparr>url = ''https://b.example/'', markdown = ''b'', rawHtml = [], title = ''B'', wasMarkdown = True\<rparr>)
        (navigate_begin ''https://b.example/'' (navigate_begin ''https://a.example/'' (newTab 1 ''New Tab'')))))
     = Some \<lparr>url = ''https://a.example/'', markdown = ''a'', rawHtml = [], title = ''A'', wasMarkdown = True\<rparr>
   \<and> history (navigate_resume (Some \<lparr>url = ''https://a.example/'', markdown = ''a'', rawHtml = [], title = ''A'', wasMarkdown = True\<rparr>)
     (navigate_resume (Some \<lparr>url = ''https://b.example/'', markdown = ''b'', rawHtml = [], title = ''B'', wasMarkdown = True\<rparr>)
        (navigate_begin ''https://b.example/'' (navigate_begin ''https://a.example/'' (newTab 1 ''New Tab'')))))
     = [''https://b.example/'', ''https://a.example/'']"
  by code_simp

lemma navigate_resume_fields:
  "tab_url (navigate_resume (Some c) t) = url c \<and> tab_title (navigate_resume (Some c) t) = title c
   \<and> content (navigate_resume (Some c) t) = Some c \<and> \<not> isLoading (navigate_resume (Some c) t)"
  by (simp add: navigate_resume_def commitHistory_def storeContent_def truncateForward_def Let_def)

text \<open>
  C3, amended. A second \<open>navigate\<close> on a tab that is still loading makes the tab adopt
  the newer target URL. Each fetch that resolves commits its own document, so after both
  have resolved the tab's URL and document are those of the fetch that resolved last:
  B's when B resolves after A, and A's when A resolves after B.
\<close>

theorem navigation_commits_last_resolved:
  "(let t1 = navigate_begin b (navigate_begin a t);
        tB = navigate_resume (Some cB) (navigate_resume (Some cA) t1);
        tA = navigate_resume (Some cA) (navigate_resume (Some cB) t1)
    in tab_url t1 = b \<and> isLoading t1
       \<and> tab_url tB = url cB \<and> content tB = Some cB \<and> \<not> isLoading tB
       \<and> tab_url tA = url cA \<and> content tA = Some cA \<and> \<not> isLoading tA)"
  unfolding Let_def using navigate_resume_fields by (simp add: navigate_begin_def)

section \<open>The history update of a navigation\<close>

lemma entryAt_take:
  "0 \<le> i \<Longrightarrow> i < int (length h) \<Longrightarrow> entryAt (take (nat (i + 1)) h) i = entryAt h i"
  by (auto simp: entryAt_def)

lemma navigate_resume_history:
  assumes ok: "historyOk t"
  shows "history (navigate_resume (Some c) t) =
           take (nat (historyIndex t + 1)) (history t)
           @ (if entryAt (history t) (historyIndex t) = Some (url c) then [] else [url c])
         \<and> historyIndex (navigate_resume (Some c) t)
             = int (length (history (navigate_resume (Some c) t))) - 1"
proof -
  let ?t = "storeContent c t"
  let ?i = "historyIndex t"
  have hi: "historyIndex ?t = ?i" "history ?t = history t" by (simp_all add: storeContent_def)
  have r: "- 1 \<le> ?i" "?i < int (length (history t))" using ok by (simp_all add: historyOk_def)
  have tr: "history (truncateForward ?t) = take (nat (?i + 1)) (history t)"
    using r by (auto simp: truncateForward_def slice0_def hi)
  have len: "int (length (take (nat (?i + 1)) (history t))) - 1 = ?i" using r by auto
  have e: "entryAt (take (nat (?i + 1)) (history t)) ?i = entryAt (history t) ?i"
  proof (cases "0 \<le> ?i")
    case True thus ?thesis using r by (intro entryAt_take)
  next
    case False thus ?thesis by (simp add: entryAt_def)
  qed
  have len': "int (min (length (history t)) (nat (?i + 1))) - 1 = ?i" using r by auto
  show ?thesis
    by (simp add: navigate_resume_def commitHistory_def Let_def tr len' e)
qed

subsection \<open>The toolbar view\<close>

lemma findIndex_update:
  "P (f (xs ! i)) = P (xs ! i) \<Longrightarrow> findIndex P (xs[i := f (xs ! i)]) = findIndex P xs"
proof (induction xs arbitrary: i)
  case Nil show ?case by simp
next
  case (Cons x xs)
  show ?case
  proof (cases i)
    case 0 with Cons.prems show ?thesis by simp
  next
    case (Suc j)
    with Cons.prems have "P (f (xs ! j)) = P (xs ! j)" by simp
    from Cons.IH[OF this] Suc show ?thesis by simp
  qed
qed

lemma activeIndex_updateTabAt:
  "tab_id (f (tabs s ! i)) = tab_id (tabs s ! i) \<Longrightarrow> activeIndex (updateTabAt i f s) = activeIndex s"
  unfolding activeIndex_def updateTabAt_def
  using findIndex_update[of "\<lambda>t. tab_id t = activeTabId s" f "tabs s" i] by simp

lemma ensureShimTab_fixed:
  "tabs s \<noteq> [] \<Longrightarrow> activeIndex s = Some i \<Longrightarrow> ensureShimTab s = (i, s)"
  by (simp add: ensureShimTab_def)

lemma shimSync_fixed: "tabs s \<noteq> [] \<Longrightarrow> activeIndex s = Some i \<Longrightarrow> shimSync s = s"
  by (simp add: shimSync_def ensureShimTab_fixed)

lemma shimNavigate_active:
  assumes ne: "tabs s \<noteq> []" and a: "activeIndex s = Some i"
  shows "shimNavigate updateHistory (Some c) s
         = updateTabAt i (shimNavigate_resume updateHistory c) (updateTabAt i (\<lambda>t. t\<lparr>isLoading := True\<rparr>) s)"
proof -
  let ?s1 = "updateTabAt i (\<lambda>t. t\<lparr>isLoading := True\<rparr>) s"
  let ?s2 = "updateTabAt i (shimNavigate_resume updateHistory c) ?s1"
  have n1: "tabs ?s1 \<noteq> []" using ne by (simp add: updateTabAt_def)
  have a1: "activeIndex ?s1 = Some i" using a by (simp add: activeIndex_updateTabAt)
  have n2: "tabs ?s2 \<noteq> []" using n1 by (simp add: updateTabAt_def)
  have "tab_id (shimNavigate_resume updateHistory c (tabs ?s1 ! i)) = tab_id (tabs ?s1 ! i)"
    by (simp add: shimNavigate_resume_def Let_def pushHistory_def truncateForward_def)
  hence a2: "activeIndex ?s2 = Some i" using a1 by (simp add: activeIndex_updateTabAt)
  show ?thesis
    by (simp add: shimNavigate_def ensureShimTab_fixed[OF ne a] shimSync_fixed[OF n1 a1]
        shimSync_fixed[OF n2 a2])
qed

lemma shim_back_trace:
  "goBack_shim (Some \<lparr>url = ''https://a.example/'', markdown = ''a'', rawHtml = [], title = ''A'', wasMarkdown = True\<rparr>)
     (shimNavigate True (Some \<lparr>url = ''https://b.example/'', markdown = ''b'', rawHtml = [], title = ''B'', wasMarkdown = True\<rparr>)
       (shimNavigate True (Some \<lparr>url = ''https://a.example/'', markdown = ''a'', rawHtml = [], title = ''A'', wasMarkdown = True\<rparr>)
          initialShimState))
   = \<lparr>tabs = [\<lparr>tab_id = 1, tab_url = ''https://a.example/'', tab_title = ''A'',
                history = [''https://a.example/'', ''https://b.example/''], historyIndex = 0,
                isLoading = False, content = Some \<lparr>url = ''https://a.example/'', markdown = ''a'', rawHtml = [], title = ''A'', wasMarkdown = True\<rparr>\<rparr>],
        activeTabId = 1, nextTabId = 2\<rparr>"
proof -
  let ?cA = "\<lparr>url = ''https://a.example/'', markdown = ''a'', rawHtml = [], title = ''A'', wasMarkdown = True\<rparr>"
  let ?cB = "\<lparr>url = ''https://b.example/'', markdown = ''b'', rawHtml = [], title = ''B'', wasMarkdown = True\<rparr>"
  let ?e = "\<lparr>tabs = [newTab 1 ''New Tab''], activeTabId = 1, nextTabId = 2\<rparr>"
  have e: "ensureShimTab initialShimState = (0, ?e)"
    by (simp add: ensureShimTab_def initialShimState_def activeIndex_def newTab_def)
  have ne: "tabs ?e \<noteq> []" by simp
  have ae: "activeIndex ?e = Some 0" by (simp add: activeIndex_def newTab_def)
  have "shimNavigate True (Some ?cA) initialShimState = shimNavigate True (Some ?cA) ?e"
    by (simp add: shimNavigate_def e ensureShimTab_fixed[OF ne ae])
  also have "\<dots> = \<lparr>tabs = [\<lparr>tab_id = 1, tab_url = ''https://a.example/'', tab_title = ''A'',
                history = [''https://a.example/''], historyIndex = 0,
                isLoading = False, content = Some ?cA\<rparr>], activeTabId = 1, nextTabId = 2\<rparr>"
    (is "_ = ?s1")
    unfolding shimNavigate_active[OF ne ae]
    by (simp add: updateTabAt_def shimNavigate_resume_def entryAt_def pushHistory_def
        truncateForward_def slice0_def newTab_def)
  finally have 1: "shimNavigate True (Some ?cA) initialShimState = ?s1" .
  have n1: "tabs ?s1 \<noteq> []" by simp
  have a1: "activeIndex ?s1 = Some 0" by (simp add: activeIndex_def)
  have 2: "shimNavigate True (Some ?cB) ?s1 = \<lparr>tabs = [\<lparr>tab_id = 1, tab_url = ''https://b.example/'', tab_title = ''B'',
                history = [''https://a.example/'', ''https://b.example/''], historyIndex = 1,
                isLoading = False, content = Some ?cB\<rparr>], activeTabId = 1, nextTabId = 2\<rparr>"
    (is "_ = ?s2")
    unfolding shimNavigate_active[OF n1 a1]
    by (simp add: updateTabAt_def shimNavigate_resume_def entryAt_def pushHistory_def
        truncateForward_def slice0_def)
  have n2: "tabs ?s2 \<noteq> []" by simp
  have a2: "activeIndex ?s2 = Some 0" by (simp add: activeIndex_def)
  let ?s3 = "updateTabAt 0 (\<lambda>t. t\<lparr>historyIndex := historyIndex t - 1\<rparr>) ?s2"
  have n3: "tabs ?s3 \<noteq> []" by (simp add: updateTabAt_def)
  have a3: "activeIndex ?s3 = Some 0" by (simp add: activeIndex_def updateTabAt_def)
  have 3: "goBack_shim (Some ?cA) ?s2 = shimNavigate False (Some ?cA) ?s3"
    by (simp add: goBack_shim_def ensureShimTab_fixed[OF n2 a2])
  show ?thesis
    unfolding 1 2 3 shimNavigate_active[OF n3 a3]
    by (simp add: updateTabAt_def shimNavigate_resume_def)
qed

text \<open>
  The history update of the bun process's \<open>navigate\<close> does what C5 says: on a tab
  whose cursor is inside its history, the entries after the cursor are dropped, the
  document's URL is appended unless the entry at the cursor is that URL, and the cursor
  points at the last entry (lemma \<open>navigate_resume_history\<close>).

  C5 fails in the toolbar view's \<open>shimNavigate\<close>, which compares the document's URL
  with the last entry of the whole history before it truncates. In the view, navigate to
  A, navigate to B, go back, and navigate to A again: the history becomes \<open>[A, A]\<close>
  with the cursor on the second entry, where C5 gives \<open>[A]\<close> with the cursor on it.
\<close>

theorem shimNavigate_duplicate_entry:
  "map history (tabs
     (shimNavigate True (Some \<lparr>url = ''https://a.example/'', markdown = ''a'', rawHtml = [], title = ''A'', wasMarkdown = True\<rparr>)
       (goBack_shim (Some \<lparr>url = ''https://a.example/'', markdown = ''a'', rawHtml = [], title = ''A'', wasMarkdown = True\<rparr>)
         (shimNavigate True (Some \<lparr>url = ''https://b.example/'', markdown = ''b'', rawHtml = [], title = ''B'', wasMarkdown = True\<rparr>)
           (shimNavigate True (Some \<lparr>url = ''https://a.example/'', markdown = ''a'', rawHtml = [], title = ''A'', wasMarkdown = True\<rparr>)
              initialShimState)))))
    = [[''https://a.example/'', ''https://a.example/'']]
   \<and> map historyIndex (tabs
     (shimNavigate True (Some \<lparr>url = ''https://a.example/'', markdown = ''a'', rawHtml = [], title = ''A'', wasMarkdown = True\<rparr>)
       (goBack_shim (Some \<lparr>url = ''https://a.example/'', markdown = ''a'', rawHtml = [], title = ''A'', wasMarkdown = True\<rparr>)
         (shimNavigate True (Some \<lparr>url = ''https://b.example/'', markdown = ''b'', rawHtml = [], title = ''B'', wasMarkdown = True\<rparr>)
           (shimNavigate True (Some \<lparr>url = ''https://a.example/'', markdown = ''a'', rawHtml = [], title = ''A'', wasMarkdown = True\<rparr>)
              initialShimState)))))
    = [1]"
proof -
  let ?cA = "\<lparr>url = ''https://a.example/'', markdown = ''a'', rawHtml = [], title = ''A'', wasMarkdown = True\<rparr>"
  let ?s = "\<lparr>tabs = [\<lparr>tab_id = 1, tab_url = ''https://a.example/'', tab_title = ''A'',
                history = [''https://a.example/'', ''https://b.example/''], historyIndex = 0,
                isLoading = False, content = Some ?cA\<rparr>],
        activeTabId = 1, nextTabId = 2\<rparr>"
  have ne: "tabs ?s \<noteq> []" by simp
  have a: "activeIndex ?s = Some 0" by (simp add: activeIndex_def)
  show ?thesis
    unfolding shim_back_trace shimNavigate_active[OF ne a]
    by (simp add: updateTabAt_def shimNavigate_resume_def entryAt_def pushHistory_def
        truncateForward_def slice0_def)
qed

section \<open>Closing a tab\<close>

lemma getActiveTab_Some_iff:
  "getActiveTab s \<noteq> None \<longleftrightarrow> (\<exists>t\<in>set (tabs s). tab_id t = activeTabId s)"
  by (auto simp: getActiveTab_def find_None_iff)

lemma sessionOk_iff:
  "sessionOk s \<longleftrightarrow> tabs s \<noteq> [] \<and> (\<exists>t\<in>set (tabs s). tab_id t = activeTabId s)"
  by (simp only: sessionOk_def getActiveTab_Some_iff)

lemma activeIndex_sessionOk: "sessionOk s \<Longrightarrow> \<exists>i. activeIndex s = Some i"
  using findIndex_None[of "\<lambda>t. tab_id t = activeTabId s" "tabs s"]
  by (cases "activeIndex s") (auto simp: sessionOk_iff activeIndex_def)

lemma mem_remove_nth:
  assumes "x \<in> set xs" "i < length xs" "x \<noteq> xs ! i"
  shows "x \<in> set (take i xs @ drop (Suc i) xs)"
proof -
  from assms(1) obtain j where j: "j < length xs" "xs ! j = x" by (auto simp: in_set_conv_nth)
  with assms(3) have ne: "j \<noteq> i" by auto
  show ?thesis
  proof (cases "j < i")
    case True
    hence "take i xs ! j = x" using j by simp
    moreover have "j < length (take i xs)" using True j by simp
    ultimately have "x \<in> set (take i xs)" using nth_mem by blast
    thus ?thesis by simp
  next
    case False
    with ne have gt: "Suc i \<le> j" by simp
    hence "drop (Suc i) xs ! (j - Suc i) = x" using j by simp
    moreover have "j - Suc i < length (drop (Suc i) xs)" using gt j by simp
    ultimately have "x \<in> set (drop (Suc i) xs)" using nth_mem by blast
    thus ?thesis by simp
  qed
qed

lemma closeTab_sessionOk:
  assumes ok: "sessionOk s"
  shows "sessionOk (snd (closeTab tabId s))"
proof (cases "findIndex (\<lambda>t. tab_id t = tabId) (tabs s)")
  case None thus ?thesis using ok by (simp add: closeTab_def)
next
  case (Some index)
  hence ix: "index < length (tabs s)" "tab_id (tabs s ! index) = tabId"
    using findIndex_Some[OF Some] by simp_all
  define rest where "rest = take index (tabs s) @ drop (Suc index) (tabs s)"
  have c: "snd (closeTab tabId s) =
      (if activeTabId s = tabId then
         (if length rest > 0 then s\<lparr>tabs := rest, activeTabId := tab_id (rest ! min index (length rest - 1))\<rparr>
          else s\<lparr>tabs := rest @ [newTab (nextTabId s) ''New Tab''],
                 activeTabId := tab_id (newTab (nextTabId s) ''New Tab''),
                 nextTabId := nextTabId s + 1\<rparr>)
       else s\<lparr>tabs := rest\<rparr>)"
    using Some unfolding rest_def by (simp add: closeTab_def Let_def)
  show ?thesis
  proof (cases "activeTabId s = tabId")
    case False
    from ok obtain t where t: "t \<in> set (tabs s)" "tab_id t = activeTabId s"
      by (auto simp: sessionOk_iff)
    hence "t \<noteq> tabs s ! index" using ix False by auto
    hence m: "t \<in> set rest" unfolding rest_def using t(1) ix(1) by (intro mem_remove_nth)
    hence "rest \<noteq> []" by (cases rest) simp_all
    hence "sessionOk (s\<lparr>tabs := rest\<rparr>)" using m t(2)
      unfolding sessionOk_iff by simp blast
    thus ?thesis using False by (simp add: c)
  next
    case True
    show ?thesis
    proof (cases "rest = []")
      case True
      thus ?thesis using \<open>activeTabId s = tabId\<close>
        by (simp add: c sessionOk_iff)
    next
      case False
      let ?n = "min index (length rest - 1)"
      from False have "0 < length rest" by simp
      hence "?n < length rest" by linarith
      hence "rest ! ?n \<in> set rest" by (rule nth_mem)
      hence "sessionOk (s\<lparr>tabs := rest, activeTabId := tab_id (rest ! ?n)\<rparr>)"
        using False unfolding sessionOk_iff by simp blast
      thus ?thesis using True False by (simp add: c)
    qed
  qed
qed

lemma ensureShimTab_sessionOk: "sessionOk (snd (ensureShimTab s))"
proof -
  let ?s1 = "if length (tabs s) = 0
                then s\<lparr>tabs := tabs s @ [newTab (nextTabId s) ''New Tab''],
                       activeTabId := nextTabId s, nextTabId := nextTabId s + 1\<rparr>
                else s"
  have ne: "tabs ?s1 \<noteq> []" by simp
  show ?thesis
  proof (cases "activeIndex ?s1")
    case (Some i)
    hence "i < length (tabs ?s1) \<and> tab_id (tabs ?s1 ! i) = activeTabId ?s1"
      by (rule activeIndex_Some)
    hence "\<exists>t\<in>set (tabs ?s1). tab_id t = activeTabId ?s1" using nth_mem by blast
    hence "sessionOk ?s1" using ne by (simp only: sessionOk_iff) simp
    thus ?thesis using Some by (simp add: ensureShimTab_def Let_def)
  next
    case None
    have "tabs ?s1 ! 0 \<in> set (tabs ?s1)" using ne by (intro nth_mem) simp
    hence "sessionOk (?s1\<lparr>activeTabId := tab_id (tabs ?s1 ! 0)\<rparr>)"
      using ne by (simp only: sessionOk_iff) auto
    thus ?thesis using None by (simp add: ensureShimTab_def Let_def)
  qed
qed

lemma shimSync_sessionOk: "sessionOk (shimSync s)"
  by (simp add: shimSync_def ensureShimTab_sessionOk)

lemma shimSync_id: "sessionOk s \<Longrightarrow> shimSync s = s"
proof -
  assume ok: "sessionOk s"
  then obtain i where "activeIndex s = Some i" using activeIndex_sessionOk by blast
  moreover have "tabs s \<noteq> []" using ok by (simp add: sessionOk_def)
  ultimately show ?thesis by (intro shimSync_fixed)
qed

lemma closeTab_shim_sessionOk:
  "sessionOk s \<or> findIndex (\<lambda>t. tab_id t = tabId) (tabs s) \<noteq> None
   \<Longrightarrow> sessionOk (closeTab_shim tabId s)"
  by (cases "findIndex (\<lambda>t. tab_id t = tabId) (tabs s)")
     (auto simp: closeTab_shim_def Let_def shimSync_sessionOk)

lemma closeTab_found:
  assumes "findIndex (\<lambda>t. tab_id t = tabId) (tabs s) = Some index"
  shows "snd (closeTab tabId s) =
      (let rest = take index (tabs s) @ drop (Suc index) (tabs s) in
       if activeTabId s = tabId then
         (if length rest > 0 then s\<lparr>tabs := rest, activeTabId := tab_id (rest ! min index (length rest - 1))\<rparr>
          else s\<lparr>tabs := rest @ [newTab (nextTabId s) ''New Tab''],
                 activeTabId := nextTabId s, nextTabId := nextTabId s + 1\<rparr>)
       else s\<lparr>tabs := rest\<rparr>)"
  using assms by (simp add: closeTab_def Let_def newTab_def)

lemma closeTab_shim_eq:
  assumes ok: "sessionOk s"
  shows "closeTab_shim tabId s = snd (closeTab tabId s)"
proof (cases "findIndex (\<lambda>t. tab_id t = tabId) (tabs s)")
  case None thus ?thesis by (simp add: closeTab_shim_def closeTab_def)
next
  case (Some index)
  hence ix: "index < length (tabs s)" "tab_id (tabs s ! index) = tabId"
    using findIndex_Some[OF Some] by simp_all
  define rest where "rest = take index (tabs s) @ drop (Suc index) (tabs s)"
  define s1 where "s1 = s\<lparr>tabs := take index (tabs s) @ drop (Suc index) (tabs s)\<rparr>"
  define s2 where "s2 = (if length (tabs s1) = 0 then
                      s1\<lparr>tabs := tabs s1 @ [newTab (nextTabId s1) ''New Tab''],
                         activeTabId := nextTabId s1, nextTabId := nextTabId s1 + 1\<rparr>
                    else if activeTabId s = tabId then
                      s1\<lparr>activeTabId := tab_id (tabs s1 ! min index (length (tabs s1) - 1))\<rparr>
                    else s1)"
  have sh: "closeTab_shim tabId s = shimSync (shimSync s2)"
    by (simp only: closeTab_shim_def Some option.case Let_def s1_def s2_def)
  have s1: "tabs s1 = rest" "nextTabId s1 = nextTabId s" "s1 = s\<lparr>tabs := rest\<rparr>"
    by (simp_all add: s1_def rest_def)
  have ok2: "sessionOk (snd (closeTab tabId s))" using ok by (rule closeTab_sessionOk)
  have "rest \<noteq> []" if "activeTabId s \<noteq> tabId"
  proof -
    from ok obtain t where t: "t \<in> set (tabs s)" "tab_id t = activeTabId s"
      by (auto simp: sessionOk_iff)
    hence "t \<noteq> tabs s ! index" using ix that by auto
    hence "t \<in> set rest" unfolding rest_def using t(1) ix(1) by (intro mem_remove_nth)
    thus ?thesis by (cases rest) simp_all
  qed
  hence eq: "s2 = snd (closeTab tabId s)"
    unfolding s2_def closeTab_found[OF Some] Let_def rest_def[symmetric] s1(1,2)
    by (auto simp: s1(3))
  hence "sessionOk s2" using ok2 by simp
  hence "shimSync (shimSync s2) = s2" by (simp add: shimSync_id)
  thus ?thesis using sh eq by simp
qed

lemma sessionOk_activeIndex: "sessionOk s \<longleftrightarrow> tabs s \<noteq> [] \<and> activeIndex s \<noteq> None"
  by (auto simp: sessionOk_def getActiveTab_activeIndex split: option.splits)

lemma updateTabAt_sessionOk:
  assumes "sessionOk s" "tab_id (f (tabs s ! i)) = tab_id (tabs s ! i)"
  shows "sessionOk (updateTabAt i f s)"
proof -
  have "activeIndex (updateTabAt i f s) = activeIndex s" using assms(2) by (rule activeIndex_updateTabAt)
  moreover have "tabs (updateTabAt i f s) \<noteq> []" using assms(1) by (simp add: updateTabAt_def sessionOk_def)
  ultimately show ?thesis using assms(1) by (simp add: sessionOk_activeIndex)
qed

lemma tab_id_steps:
  "tab_id (navigate_resume fetched (navigate_begin n t)) = tab_id t"
  "tab_id (replay_resume fetched (replay_begin d t)) = tab_id t"
  "tab_id (reload_resume fetched (t\<lparr>isLoading := True\<rparr>)) = tab_id t"
  "tab_id (webviewNavigated hostname u t) = tab_id t"
  by (auto simp: navigate_resume_def navigate_begin_def commitHistory_def storeContent_def
      truncateForward_def replay_resume_def replay_begin_def reload_resume_def
      webviewNavigated_def pushHistory_def Let_def split: option.splits)

lemma navigate_sessionOk: "sessionOk s \<Longrightarrow> sessionOk (snd (navigate u fetched s))"
proof -
  assume ok: "sessionOk s"
  then obtain i where i: "activeIndex s = Some i" using activeIndex_sessionOk by blast
  show ?thesis
  proof (cases u fetched s rule: navigate_cases)
    case rejected thus ?thesis using ok by simp
  next
    case failure thus ?thesis using ok by simp
  next
    case (normalized n)
    thus ?thesis using ok i by (auto simp: Let_def tab_id_steps intro!: updateTabAt_sessionOk)
  qed
qed

lemma createTab_sessionOk: "sessionOk (snd (createTab u fetched s))"
proof -
  let ?s1 = "s\<lparr>tabs := tabs s @ [newTab (nextTabId s) ''New Tab''],
               activeTabId := tab_id (newTab (nextTabId s) ''New Tab''),
               nextTabId := nextTabId s + 1\<rparr>"
  have "sessionOk ?s1" unfolding sessionOk_iff by simp
  thus ?thesis using navigate_sessionOk[of ?s1]
    by (auto simp: createTab_def Let_def split: option.splits)
qed

lemma switchTab_sessionOk: "sessionOk s \<Longrightarrow> sessionOk (snd (switchTab tabId s))"
proof (cases "find (\<lambda>t. tab_id t = tabId) (tabs s)")
  case None
  assume "sessionOk s" thus ?thesis using None by (simp add: switchTab_def)
next
  case (Some tab)
  assume ok: "sessionOk s"
  from Some have "tab \<in> set (tabs s) \<and> tab_id tab = tabId"
    by (auto simp: find_Some_iff)
  hence "sessionOk (s\<lparr>activeTabId := tabId\<rparr>)" using ok unfolding sessionOk_iff by auto
  thus ?thesis using Some by (simp add: switchTab_def)
qed

lemma handle_sessionOk: "sessionOk s \<Longrightarrow> sessionOk (snd (handle hostname r s))"
proof -
  assume ok: "sessionOk s"
  then obtain i where i: "activeIndex s = Some i" using activeIndex_sessionOk by blast
  show ?thesis
  proof (cases r)
    case (Navigate u fetched) thus ?thesis using navigate_sessionOk[OF ok] by simp
  next
    case (GoBack fetched)
    thus ?thesis using ok i by (auto simp: goBack_def tab_id_steps intro!: updateTabAt_sessionOk)
  next
    case (GoForward fetched)
    thus ?thesis using ok i by (auto simp: goForward_def tab_id_steps intro!: updateTabAt_sessionOk)
  next
    case (Reload fetched)
    thus ?thesis using ok i by (auto simp: reload_def tab_id_steps intro!: updateTabAt_sessionOk)
  next
    case StopLoading
    thus ?thesis using ok i by (auto simp: stopLoading_def intro!: updateTabAt_sessionOk)
  next
    case (CreateTab u fetched) thus ?thesis using createTab_sessionOk by simp
  next
    case (CloseTab tabId) thus ?thesis using closeTab_sessionOk[OF ok] by simp
  next
    case (SwitchTab tabId) thus ?thesis using switchTab_sessionOk[OF ok] by simp
  next
    case (RefetchForViewMode fetched)
    thus ?thesis using ok i by (auto simp: reload_def tab_id_steps intro!: updateTabAt_sessionOk)
  next
    case (OnWebviewNavigated u)
    thus ?thesis using ok i
      by (auto simp: onWebviewNavigated_def tab_id_steps intro!: updateTabAt_sessionOk)
  qed
qed

lemma run_sessionOk: "sessionOk s \<Longrightarrow> sessionOk (run hostname reqs s)"
  by (induction reqs arbitrary: s) (simp_all add: handle_sessionOk)

lemma initialSession_ok: "sessionOk initialSession"
  by (simp add: sessionOk_iff initialSession_def newTab_def)

text \<open>
  C8. In a session that has a tab and whose \<open>activeTabId\<close> is the id of one of its tabs
  (every session reached from the initial one by requests is such a session),
  \<open>closeTab\<close> leaves a session with at least one tab and with \<open>activeTabId\<close> the id
  of one of them. Closing the only tab leaves exactly one new empty tab, which is active;
  closing the active tab among several removes it and activates the tab now at the same
  position, or the last one when the closed tab was last. The toolbar view's \<open>closeTab\<close>
  leaves the same state.
\<close>

theorem closeTab_keeps_active_tab:
  assumes ok: "sessionOk s"
  shows "(let s' = snd (closeTab tabId s) in
            tabs s' \<noteq> [] \<and> getActiveTab s' \<noteq> None
            \<and> (\<forall>t. tabs s = [t] \<and> tab_id t = tabId \<longrightarrow>
                  tabs s' = [newTab (nextTabId s) ''New Tab''] \<and> activeTabId s' = nextTabId s)
            \<and> (\<forall>index. findIndex (\<lambda>t. tab_id t = tabId) (tabs s) = Some index
                    \<and> activeTabId s = tabId \<and> 1 < length (tabs s) \<longrightarrow>
                  tabs s' = take index (tabs s) @ drop (Suc index) (tabs s)
                  \<and> activeTabId s' = tab_id (tabs s' ! min index (length (tabs s') - 1))))
         \<and> closeTab_shim tabId s = snd (closeTab tabId s)
         \<and> sessionOk (run hostname reqs initialSession)"
proof -
  let ?s' = "snd (closeTab tabId s)"
  have 1: "tabs ?s' \<noteq> [] \<and> getActiveTab ?s' \<noteq> None"
    using closeTab_sessionOk[OF ok] by (simp add: sessionOk_def)
  have 2: "tabs ?s' = [newTab (nextTabId s) ''New Tab''] \<and> activeTabId ?s' = nextTabId s"
    if "tabs s = [t] \<and> tab_id t = tabId" for t
  proof -
    from that ok have a: "activeTabId s = tabId" by (auto simp: sessionOk_iff)
    from that have f: "findIndex (\<lambda>t. tab_id t = tabId) (tabs s) = Some 0" by simp
    show ?thesis unfolding closeTab_found[OF f] using that a by simp
  qed
  have 3: "tabs ?s' = take index (tabs s) @ drop (Suc index) (tabs s)
           \<and> activeTabId ?s' = tab_id (tabs ?s' ! min index (length (tabs ?s') - 1))"
    if "findIndex (\<lambda>t. tab_id t = tabId) (tabs s) = Some index \<and> activeTabId s = tabId
        \<and> 1 < length (tabs s)" for index
  proof -
    from that have f: "findIndex (\<lambda>t. tab_id t = tabId) (tabs s) = Some index" by simp
    hence "index < length (tabs s)" using findIndex_Some by blast
    hence "length (take index (tabs s) @ drop (Suc index) (tabs s)) > 0" using that by auto
    thus ?thesis unfolding closeTab_found[OF f] Let_def using that by simp
  qed
  have 4: "sessionOk (run hostname reqs initialSession)"
    using initialSession_ok by (rule run_sessionOk)
  show ?thesis unfolding Let_def using 1 2 3 4 closeTab_shim_eq[OF ok] by blast
qed


theorem closeTab_keeps_active_tab_witness:
  "sessionOk initialSession
   \<and> tabs (snd (closeTab 1 initialSession)) = [newTab 2 ''New Tab'']
   \<and> activeTabId (snd (closeTab 1 initialSession)) = 2
   \<and> getActiveTab (snd (closeTab 1 initialSession)) \<noteq> None
   \<and> closeTab_shim 1 initialSession = snd (closeTab 1 initialSession)"
proof -
  have t: "tabs initialSession = [newTab 1 ''New Tab''] \<and> tab_id (newTab 1 ''New Tab'') = 1"
    by (simp add: initialSession_def newTab_def)
  have n: "nextTabId initialSession = 2" by (simp add: initialSession_def)
  from closeTab_keeps_active_tab[OF initialSession_ok, of 1 Inr "[]"] t
  show ?thesis unfolding Let_def n using initialSession_ok by blast
qed

section \<open>Classification of a fetched response\<close>

lemma looksNative_markdown: "includes_str ''text/markdown'' ctype \<Longrightarrow> looksNative ctype text"
  by (simp add: looksNative_def)

lemma classify_native:
  assumes "looksNative ctype text" "hostname finalUrl = Inr h"
  shows "classify st hostname turndown ctype finalUrl text =
           Inr \<lparr>url = finalUrl, markdown = text, rawHtml = [],
                title = (case firstMatch matchHeadingAt None text of Some x \<Rightarrow> x | None \<Rightarrow> h),
                wasMarkdown = True\<rparr>"
  using assms by (simp add: classify_def split: option.splits)

text \<open>
  C6. A response that was fetched (the URL is not the start page's, which is never
  fetched) and whose \<open>content-type\<close> contains \<open>text/markdown\<close> yields a document
  with \<open>wasMarkdown\<close> true whose \<open>markdown\<close> is the decoded text as it is, with no
  raw HTML; its URL is the response's, its title the first heading or else the host.
  The response's URL is one the URL parser accepts, as the URL of a fetched response is.
  The toolbar view returns the same document when the proxy reports the final URL.
\<close>

theorem markdown_response_is_native:
  assumes nu: "u \<noteq> START_PAGE_URL"
      and ct: "includes_str ''text/markdown'' (contentType r)"
      and hn: "hostname (responseUrl r) = Inr h"
      and fu: "responseUrl r \<noteq> []"
  shows "fetchPage st hostname turndown u (Fetched r) =
           Some \<lparr>url = responseUrl r, markdown = responseText r, rawHtml = [],
                 title = (case firstMatch matchHeadingAt None (responseText r) of
                            Some x \<Rightarrow> x | None \<Rightarrow> h),
                 wasMarkdown = True\<rparr>
         \<and> shimFetchPage st hostname turndown u (Fetched r) =
             fetchPage st hostname turndown u (Fetched r)"
proof -
  have n: "looksNative (contentType r) (responseText r)" using ct by (rule looksNative_markdown)
  have c: "classify st hostname turndown (contentType r) (responseUrl r) (responseText r) =
           Inr \<lparr>url = responseUrl r, markdown = responseText r, rawHtml = [],
                title = (case firstMatch matchHeadingAt None (responseText r) of
                           Some x \<Rightarrow> x | None \<Rightarrow> h),
                wasMarkdown = True\<rparr>"
    using n hn by (rule classify_native)
  show ?thesis using nu fu by (simp add: fetchPage_def shimFetchPage_def c)
qed

theorem markdown_response_is_native_witness:
  "fetchPage \<lparr>sendAcceptMd = True, autoConvert = True, allowJavascript = False\<rparr> Inr Inr
     ''https://example.com/readme''
     (Fetched \<lparr>contentType = ''text/markdown; charset=utf-8'',
               responseUrl = ''https://example.com/readme.md'',
               responseText = ''intro\<newline># Title\<newline>[ a ](b)\<newline>\<newline>\<newline>\<newline>1.''\<rparr>)
   = Some \<lparr>url = ''https://example.com/readme.md'',
           markdown = ''intro\<newline># Title\<newline>[ a ](b)\<newline>\<newline>\<newline>\<newline>1.'',
           rawHtml = [], title = ''Title'', wasMarkdown = True\<rparr>"
proof -
  let ?r = "\<lparr>contentType = ''text/markdown; charset=utf-8'',
               responseUrl = ''https://example.com/readme.md'',
               responseText = ''intro\<newline># Title\<newline>[ a ](b)\<newline>\<newline>\<newline>\<newline>1.''\<rparr>"
  have nu: "''https://example.com/readme'' \<noteq> START_PAGE_URL" by (simp add: START_PAGE_URL_def)
  have ct: "includes_str ''text/markdown'' (contentType ?r)" by (simp add: startsWith_def)
  have hn: "(Inr :: string \<Rightarrow> string + string) (responseUrl ?r) = Inr (responseUrl ?r)" by simp
  have fu: "responseUrl ?r \<noteq> []" by simp
  have t: "firstMatch matchHeadingAt None (responseText ?r) = Some ''Title''" by code_simp
  from markdown_response_is_native[where u = "''https://example.com/readme''" and r = ?r
      and hostname = Inr and h = "responseUrl ?r" and turndown = Inr
      and st = "\<lparr>sendAcceptMd = True, autoConvert = True, allowJavascript = False\<rparr>",
      OF nu ct hn fu]
  show ?thesis unfolding t by simp
qed

section \<open>Native documents carry no raw markup\<close>

lemma startPage_raw: "startPage st turndown = Inr d \<Longrightarrow> wasMarkdown d \<Longrightarrow> rawHtml d = []"
  by (auto simp: startPage_def split: if_splits sum.splits)

lemma classify_raw:
  "classify st hostname turndown ctype finalUrl text = Inr d \<Longrightarrow> wasMarkdown d \<Longrightarrow> rawHtml d = []"
  by (auto simp: classify_def split: if_splits sum.splits option.splits)

lemma fetchPage_total: "u \<noteq> START_PAGE_URL \<Longrightarrow> \<exists>d. fetchPage st hostname turndown u outcome = Some d"
  by (auto simp: fetchPage_def split: fetchOutcome.splits sum.splits)

text \<open>
  C9. Whatever \<open>fetchPage\<close> returns (the start page, a native document, a document
  derived from HTML, the error document), if \<open>wasMarkdown\<close> is true then \<open>rawHtml\<close> is
  the empty string. The same holds for the toolbar view's \<open>shimFetchPage\<close>.
\<close>

theorem native_has_no_raw_markup:
  "(fetchPage st hostname turndown u outcome = Some d \<longrightarrow> wasMarkdown d \<longrightarrow> rawHtml d = [])
   \<and> (shimFetchPage st hostname turndown u outcome = Some d \<longrightarrow> wasMarkdown d \<longrightarrow> rawHtml d = [])"
proof (intro conjI impI)
  assume f: "fetchPage st hostname turndown u outcome = Some d" and w: "wasMarkdown d"
  show "rawHtml d = []"
  proof (cases "u = START_PAGE_URL")
    case True
    with f have "startPage st turndown = Inr d" by (simp add: fetchPage_def split: sum.splits)
    thus ?thesis using w by (rule startPage_raw)
  next
    case False
    show ?thesis
    proof (cases outcome)
      case (FetchFailed e)
      with f False have "d = errorDocument u e" by (simp add: fetchPage_def)
      with w show ?thesis by (simp add: errorDocument_def)
    next
      case (Fetched r)
      show ?thesis
      proof (cases "classify st hostname turndown (contentType r) (responseUrl r) (responseText r)")
        case (Inl e)
        with f False Fetched have "d = errorDocument u e" by (simp add: fetchPage_def)
        with w show ?thesis by (simp add: errorDocument_def)
      next
        case (Inr d')
        with f False Fetched have "d' = d" by (simp add: fetchPage_def)
        with Inr w show ?thesis using classify_raw by blast
      qed
    qed
  qed
next
  assume f: "shimFetchPage st hostname turndown u outcome = Some d" and w: "wasMarkdown d"
  show "rawHtml d = []"
  proof (cases "u = START_PAGE_URL")
    case True
    with f have "startPage st turndown = Inr d" by (simp add: shimFetchPage_def split: sum.splits)
    thus ?thesis using w by (rule startPage_raw)
  next
    case False
    with f obtain r where r: "outcome = Fetched r"
      by (cases outcome) (simp_all add: shimFetchPage_def)
    let ?fu = "if responseUrl r \<noteq> [] then responseUrl r else u"
    from f False r have "classify st hostname turndown (contentType r) ?fu (responseText r) = Inr d"
      by (auto simp: shimFetchPage_def Let_def split: sum.splits if_splits)
    thus ?thesis using w by (rule classify_raw)
  qed
qed

theorem native_has_no_raw_markup_witness:
  "fetchPage \<lparr>sendAcceptMd = True, autoConvert = True, allowJavascript = False\<rparr> Inr Inr
     START_PAGE_URL (FetchFailed ''unused'')
   = Some \<lparr>url = START_PAGE_URL, markdown = START_PAGE_MARKDOWN, rawHtml = [],
           title = START_PAGE_TITLE, wasMarkdown = True\<rparr>
   \<and> wasMarkdown \<lparr>url = START_PAGE_URL, markdown = START_PAGE_MARKDOWN, rawHtml = [],
           title = START_PAGE_TITLE, wasMarkdown = True\<rparr>
   \<and> rawHtml \<lparr>url = START_PAGE_URL, markdown = START_PAGE_MARKDOWN, rawHtml = [],
           title = START_PAGE_TITLE, wasMarkdown = True\<rparr> = []"
proof -
  let ?st = "\<lparr>sendAcceptMd = True, autoConvert = True, allowJavascript = False\<rparr>"
  let ?d = "\<lparr>url = START_PAGE_URL, markdown = START_PAGE_MARKDOWN, rawHtml = [],
           title = START_PAGE_TITLE, wasMarkdown = True\<rparr>"
  have f: "fetchPage ?st Inr Inr START_PAGE_URL (FetchFailed ''unused'') = Some ?d"
    by (simp add: fetchPage_def startPage_def)
  have w: "wasMarkdown ?d" by simp
  from native_has_no_raw_markup[of ?st Inr Inr START_PAGE_URL "FetchFailed ''unused''" ?d] f w
  show ?thesis by blast
qed

end
